theory Spec2Isabelle
  imports
    Complex_Main
    "HOL-Library.Word"
    "HOL-Library.Multiset"
    "HOL-Library.Char_ord"
    "HOL-Library.List_Lexorder"
    "HOL-Library.Product_Lexorder"
begin

unbundle bit_operations_syntax

section \<open>xxHash32 (hash/xxhash.ts)\<close>

text \<open>
  JavaScript numbers that hold unsigned 32-bit values are modelled as \<open>32 word\<close>.
  The helpers \<open>add32\<close> and \<open>mul32\<close> are written the way the source computes them, on
  the integers the doubles hold (every intermediate stays far below \<open>2 ^ 53\<close>, so the
  double arithmetic is exact), and are then shown to be the word operations.
\<close>

type_synonym u32 = "32 word"
type_synonym u8 = "8 word"

definition PRIME32_1 :: u32 where "PRIME32_1 = 0x9E3779B1"
definition PRIME32_2 :: u32 where "PRIME32_2 = 0x85EBCA77"
definition PRIME32_3 :: u32 where "PRIME32_3 = 0xC2B2AE3D"
definition PRIME32_4 :: u32 where "PRIME32_4 = 0x27D4EB2F"
definition PRIME32_5 :: u32 where "PRIME32_5 = 0x165667B1"

text \<open>\<open>((a >>> 0) + (b >>> 0)) >>> 0\<close>\<close>

definition add32 :: "u32 \<Rightarrow> u32 \<Rightarrow> u32" where
  "add32 a b = word_of_int (uint a + uint b)"

text \<open>
  \<open>mul32\<close> splits both operands into 16-bit halves, multiplies the halves as numbers,
  shifts the cross terms with the 32-bit signed \<open><<\<close> and reduces the sum with
  \<open>>>> 0\<close>.
\<close>

definition mul32 :: "u32 \<Rightarrow> u32 \<Rightarrow> u32" where
  "mul32 a b =
     (let al = uint (a AND 0xFFFF);
          ah = uint (drop_bit 16 a);
          bl = uint (b AND 0xFFFF);
          bh = uint (drop_bit 16 b);
          ll = al * bl;
          lh = al * bh;
          hl = ah * bl
      in word_of_int (ll + sint (push_bit 16 (word_of_int (lh + hl) :: u32))))"

text \<open>\<open>((value << count) | (value >>> (32 - count))) >>> 0\<close>\<close>

definition rotl32 :: "u32 \<Rightarrow> nat \<Rightarrow> u32" where
  "rotl32 v c = (push_bit c v) OR (drop_bit (32 - c) v)"

definition readU32LE :: "u8 list \<Rightarrow> nat \<Rightarrow> u32" where
  "readU32LE d off =
     (ucast (d ! off)) OR (push_bit 8 (ucast (d ! (off + 1))))
       OR (push_bit 16 (ucast (d ! (off + 2)))) OR (push_bit 24 (ucast (d ! (off + 3))))"

definition round32 :: "u32 \<Rightarrow> u32 \<Rightarrow> u32" where
  "round32 acc inp = mul32 (rotl32 (add32 acc (mul32 inp PRIME32_2)) 13) PRIME32_1"

text \<open>The \<open>do \<dots> while (i <= limit)\<close> loop over 16-byte blocks.\<close>

function stripes :: "u8 list \<Rightarrow> nat \<Rightarrow> u32 \<times> u32 \<times> u32 \<times> u32 \<Rightarrow> nat \<times> u32 \<times> u32 \<times> u32 \<times> u32" where
  "stripes d i (v1, v2, v3, v4) =
     (let v1' = round32 v1 (readU32LE d i);
          v2' = round32 v2 (readU32LE d (i + 4));
          v3' = round32 v3 (readU32LE d (i + 8));
          v4' = round32 v4 (readU32LE d (i + 12));
          i' = i + 16
      in if int i' \<le> int (length d) - 16 then stripes d i' (v1', v2', v3', v4')
         else (i', v1', v2', v3', v4'))"
  by pat_completeness auto
termination
  by (relation "measure (\<lambda>(d, i, v). length d - i)") auto

text \<open>\<open>while (i + 4 <= len)\<close>\<close>

function words4 :: "u8 list \<Rightarrow> nat \<Rightarrow> u32 \<Rightarrow> nat \<times> u32" where
  "words4 d i h =
     (if i + 4 \<le> length d
      then words4 d (i + 4)
             (mul32 (rotl32 (add32 h (mul32 (readU32LE d i) PRIME32_3)) 17) PRIME32_4)
      else (i, h))"
  by pat_completeness auto
termination
  by (relation "measure (\<lambda>(d, i, h). length d - i)") auto

text \<open>\<open>while (i < len)\<close>\<close>

function tailBytes :: "u8 list \<Rightarrow> nat \<Rightarrow> u32 \<Rightarrow> u32" where
  "tailBytes d i h =
     (if i < length d
      then tailBytes d (i + 1)
             (mul32 (rotl32 (add32 h (mul32 (ucast (d ! i)) PRIME32_5)) 11) PRIME32_1)
      else h)"
  by pat_completeness auto
termination
  by (relation "measure (\<lambda>(d, i, h). length d - i)") auto

definition avalanche :: "u32 \<Rightarrow> u32" where
  "avalanche h0 =
     (let h1 = h0 XOR drop_bit 15 h0;
          h2 = mul32 h1 PRIME32_2;
          h3 = h2 XOR drop_bit 13 h2;
          h4 = mul32 h3 PRIME32_3
      in h4 XOR drop_bit 16 h4)"

definition xxhash32 :: "u8 list \<Rightarrow> u32 \<Rightarrow> u32" where
  "xxhash32 d seed =
     (let len = length d;
          (i, h32) =
            (if len \<ge> 16
             then (case stripes d 0
                          (add32 (add32 seed PRIME32_1) PRIME32_2, add32 seed PRIME32_2,
                           seed, seed - PRIME32_1) of
                     (i, v1, v2, v3, v4) \<Rightarrow>
                       (i, rotl32 v1 1 + rotl32 v2 7 + rotl32 v3 12 + rotl32 v4 18))
             else (0, add32 seed PRIME32_5));
          h32 = add32 h32 (of_nat len);
          (i, h32) = words4 d i h32
      in avalanche (tailBytes d i h32))"

definition xxhash32Combine :: "u32 \<Rightarrow> u32 \<Rightarrow> u32" where
  "xxhash32Combine existingHash newValue =
     avalanche (mul32 (rotl32 (add32 existingHash (mul32 newValue PRIME32_3)) 17) PRIME32_4)"


section \<open>Partition assignment (sync/partition.js)\<close>

text \<open>
  Client ids are JavaScript strings, ordered by the default \<open>Array.prototype.sort\<close>
  (lexicographic on code units); they are modelled as \<open>string\<close> with the
  lexicographic order on character codes.  Entity counts, client counts, frames and
  reliability scores are integral JavaScript numbers, modelled as \<open>int\<close>; the
  reliability record is a partial map.  Seeds and random numbers are unsigned
  32-bit values.
\<close>

definition FP_SCALE :: int where "FP_SCALE = 65536"

text \<open>\<open>x | 0\<close> and \<open>x >>> 0\<close> on an integral number.\<close>

definition toInt32 :: "int \<Rightarrow> int" where
  "toInt32 x = sint (word_of_int x :: u32)"

definition toUint32 :: "int \<Rightarrow> int" where
  "toUint32 x = uint (word_of_int x :: u32)"

definition computePartitionCount :: "int \<Rightarrow> int \<Rightarrow> int" where
  "computePartitionCount entityCount clientCount =
     (if clientCount \<le> 0 then 1
      else if entityCount \<le> 0 then 1
      else let targetEntitiesPerPartition = 30;
               idealPartitions = \<lceil>real_of_int entityCount / real_of_int targetEntitiesPerPartition\<rceil>;
               minPartitions = 1;
               maxPartitions = max 1 (clientCount * 2)
           in max minPartitions (min maxPartitions idealPartitions))"

definition computePartitionSeed :: "int \<Rightarrow> int \<Rightarrow> u32" where
  "computePartitionSeed frame partitionId =
     (let seed = 0x12345678;
          seed = xxhash32Combine seed (word_of_int frame);
          seed = xxhash32Combine seed (word_of_int partitionId)
      in seed)"

text \<open>
  \<open>reliability\<close> is a plain object, given here by its own properties.  The property
  read \<open>reliability[clientId]\<close> also finds what the object inherits from
  \<open>Object.prototype\<close>: for an id such as \<open>constructor\<close> or \<open>toString\<close> that is not an
  own property the read yields a function (for \<open>__proto__\<close> the prototype object),
  which is neither \<open>undefined\<close> nor \<open>null\<close>, so \<open>?? 50\<close> keeps it.
\<close>

datatype jsvalue = Undefined | Number int | Inherited

definition objectPrototypeKeys :: "string list" where
  "objectPrototypeKeys =
     [''constructor'', ''hasOwnProperty'', ''isPrototypeOf'', ''propertyIsEnumerable'',
      ''toLocaleString'', ''toString'', ''valueOf'', ''__proto__'', ''__defineGetter__'',
      ''__defineSetter__'', ''__lookupGetter__'', ''__lookupSetter__'']"

definition getProperty :: "(string \<rightharpoonup> int) \<Rightarrow> string \<Rightarrow> jsvalue" where
  "getProperty obj k =
     (case obj k of
        Some v \<Rightarrow> Number v
      | None \<Rightarrow> if k \<in> set objectPrototypeKeys then Inherited else Undefined)"

text \<open>
  In \<open>computeFixedPointWeights\<close> a number is clamped, incremented and scaled.  An
  inherited member turns \<open>Math.min(100, rel)\<close> into \<open>NaN\<close>, which \<open>Math.max\<close>, \<open>+\<close> and
  \<open>*\<close> pass on and \<open>| 0\<close> turns into 0; \<open>None\<close> stands for \<open>NaN\<close>.
\<close>

definition computeFixedPointWeights :: "string list \<Rightarrow> (string \<rightharpoonup> int) \<Rightarrow> int list" where
  "computeFixedPointWeights clients reliability =
     map (\<lambda>clientId.
            let rel = (case getProperty reliability clientId of
                         Undefined \<Rightarrow> Some 50
                       | Number r \<Rightarrow> Some r
                       | Inherited \<Rightarrow> None);
                clampedRel = map_option (\<lambda>rel. max 0 (min 100 rel)) rel
            in (case clampedRel of
                  Some c \<Rightarrow> toInt32 ((c + 1) * FP_SCALE)
                | None \<Rightarrow> 0)) clients"

text \<open>
  \<open>mulFP\<close>: the product is taken on BigInts, divided by the scale and converted back
  with \<open>Number(\<dots>) | 0\<close>.
\<close>

definition mulFP :: "int \<Rightarrow> int \<Rightarrow> int" where
  "mulFP a b = toInt32 ((toUint32 a * toUint32 b) div FP_SCALE)"

definition nextRandom :: "u32 \<Rightarrow> u32" where
  "nextRandom state =
     (let x = state;
          x = x XOR push_bit 13 x;
          x = x XOR drop_bit 17 x;
          x = x XOR push_bit 5 x
      in x)"

text \<open>The bucket search of \<open>selectWeighted\<close>, with its fallback to the last index.\<close>

function scanWeights :: "int list \<Rightarrow> int \<Rightarrow> int \<Rightarrow> nat \<Rightarrow> int" where
  "scanWeights weights threshold cumulative i =
     (if i < length weights
      then (let cumulative' = toInt32 (cumulative + weights ! i)
            in if threshold < cumulative' then int i
               else scanWeights weights threshold cumulative' (i + 1))
      else int (length weights) - 1)"
  by pat_completeness auto
termination
  by (relation "measure (\<lambda>(ws, t, c, i). length ws - i)") auto

definition selectWeighted :: "int list \<Rightarrow> u32 \<Rightarrow> int" where
  "selectWeighted weights seed =
     (if length weights = 0 then - 1
      else if length weights = 1 then 0
      else let totalWeight = foldl (\<lambda>t w. toInt32 (t + w)) 0 weights
           in if totalWeight \<le> 0 then uint seed mod int (length weights)
              else let randNormalized = uint seed mod FP_SCALE;
                       threshold = mulFP randNormalized totalWeight
                   in scanWeights weights threshold 0 0)"

text \<open>\<open>available.splice(selectedIdx, 1)\<close>\<close>

definition splice1 :: "'a list \<Rightarrow> nat \<Rightarrow> 'a list" where
  "splice1 xs i = take i xs @ drop (Suc i) xs"

text \<open>
  The selection loop of \<open>weightedRandomPick\<close>.  \<open>selectWeighted\<close> returns an index
  inside \<open>available\<close> whenever \<open>available\<close> is not empty (lemma
  \<open>selectWeighted_range\<close> below), so the read and the splice are in range.
\<close>

function pickLoop ::
  "nat \<Rightarrow> int \<Rightarrow> string list \<Rightarrow> u32 \<Rightarrow> string list \<Rightarrow> (string \<rightharpoonup> int) \<Rightarrow> string list" where
  "pickLoop i cnt available rng result reliability =
     (if int i < cnt \<and> length available > 0
      then (let weights = computeFixedPointWeights available reliability;
                selectedIdx = nat (selectWeighted weights rng)
            in pickLoop (i + 1) cnt (splice1 available selectedIdx) (nextRandom rng)
                 (result @ [available ! selectedIdx]) reliability)
      else result)"
  by pat_completeness auto
termination
  by (relation "measure (\<lambda>(i, cnt, a, g, r, m). nat (cnt - int i))") auto

definition weightedRandomPick ::
  "string list \<Rightarrow> int \<Rightarrow> u32 \<Rightarrow> (string \<rightharpoonup> int) \<Rightarrow> string list" where
  "weightedRandomPick clients cnt seed reliability =
     (if length clients = 0 then []
      else if cnt \<ge> int (length clients) then clients
      else pickLoop 0 cnt clients seed [] reliability)"

record PartitionAssignment =
  partitionSenders :: "(nat \<times> string list) list"
  numPartitions :: int
  frame :: int

definition computePartitionAssignment ::
  "int \<Rightarrow> string list \<Rightarrow> int \<Rightarrow> (string \<rightharpoonup> int) \<Rightarrow> int \<Rightarrow> PartitionAssignment" where
  "computePartitionAssignment entityCount clientIds frm reliability sendersPerPartition =
     (let sortedClients = sort clientIds;
          n = computePartitionCount entityCount (int (length sortedClients))
      in \<lparr> partitionSenders =
             map (\<lambda>partitionId.
                    (partitionId,
                     weightedRandomPick sortedClients
                       (min sendersPerPartition (int (length sortedClients)))
                       (computePartitionSeed frm (int partitionId)) reliability))
                 [0 ..< nat n],
           numPartitions = n,
           frame = frm \<rparr>)"

text \<open>\<open>assignment.partitionSenders.get(partitionId)\<close>\<close>

definition sendersOf :: "PartitionAssignment \<Rightarrow> nat \<Rightarrow> string list option" where
  "sendersOf a p = map_of (partitionSenders a) p"

datatype DegradationTier = NORMAL | DEGRADED | MINIMAL | SKIP

definition computeDegradationTier :: "int \<Rightarrow> int \<Rightarrow> int \<Rightarrow> int \<Rightarrow> DegradationTier" where
  "computeDegradationTier totalPartitions receivedPartitions trustedSenders totalSenders =
     (if receivedPartitions = totalPartitions \<and> trustedSenders = totalSenders then NORMAL
      else if real_of_int receivedPartitions > real_of_int totalPartitions * 0.75 then DEGRADED
      else if real_of_int receivedPartitions > real_of_int totalPartitions * 0.25 then MINIMAL
      else SKIP)"


section \<open>Trigger overlaps (plugins/physics2d/trigger.js)\<close>

text \<open>
  A body is an object with a \<open>label\<close>; \<open>ident\<close> stands for the identity of the
  object (what \<open>===\<close> compares).  An overlap is a pair of bodies.  The \<open>overlaps\<close> map
  is an association list in insertion order.  Callbacks are opaque observers, named by
  numbers; every invocation is recorded as an event.
\<close>

record body =
  ident :: nat
  label :: string

record overlap =
  trigger :: body
  other :: body

datatype event = Enter nat overlap | Stay nat overlap | Exit nat overlap

record TriggerState =
  overlaps :: "(string \<times> overlap) list"
  enterCallbacks :: "nat list"
  stayCallbacks :: "nat list"
  exitCallbacks :: "nat list"

text \<open>
  \<open>parseInt(s, 10)\<close>: leading white space is skipped, a sign is accepted, and the
  longest prefix of decimal digits is read; with no digit the result is \<open>NaN\<close>
  (\<open>None\<close>).  The value is exact for the ids an engine produces (below \<open>2 ^ 53\<close>).
\<close>

definition isWhite :: "char \<Rightarrow> bool" where
  "isWhite c = (c \<in> set [CHR 0x09, CHR 0x0A, CHR 0x0B, CHR 0x0C, CHR 0x0D, CHR 0x20])"

definition isDigit :: "char \<Rightarrow> bool" where
  "isDigit c = (CHR ''0'' \<le> c \<and> c \<le> CHR ''9'')"

definition digitVal :: "char \<Rightarrow> int" where
  "digitVal c = of_char c - 48"

definition parseInt10 :: "string \<Rightarrow> int option" where
  "parseInt10 s =
     (let s1 = dropWhile isWhite s;
          (sgn1, s2) = (case s1 of
                          c # r \<Rightarrow> if c = CHR ''-'' then (- 1, r)
                                   else if c = CHR ''+'' then (1, r) else (1, s1)
                        | [] \<Rightarrow> (1, s1));
          ds = takeWhile isDigit s2
      in if ds = [] then None
         else Some (sgn1 * foldl (\<lambda>a c. 10 * a + digitVal c) 0 ds))"

text \<open>\<open>parseInt(label, 10) || 0\<close>\<close>

definition eidOf :: "string \<Rightarrow> int" where
  "eidOf l = (case parseInt10 l of None \<Rightarrow> 0 | Some v \<Rightarrow> v)"

text \<open>
  The comparator of \<open>processOverlaps\<close> orders by the trigger id and then by the other
  id: the lexicographic order on the pair of parsed ids.  \<open>Array.prototype.sort\<close> is
  stable, as \<open>sort_key\<close> is.
\<close>

definition pairId :: "overlap \<Rightarrow> int \<times> int" where
  "pairId ov = (eidOf (label (trigger ov)), eidOf (label (other ov)))"

definition makeKey :: "body \<Rightarrow> body \<Rightarrow> string" where
  "makeKey t ot = label t @ '':'' @ label ot"

definition keyOf :: "overlap \<Rightarrow> string" where
  "keyOf ov = makeKey (trigger ov) (other ov)"

definition mapHas :: "(string \<times> 'v) list \<Rightarrow> string \<Rightarrow> bool" where
  "mapHas m k = (map_of m k \<noteq> None)"

fun mapSet :: "(string \<times> 'v) list \<Rightarrow> string \<Rightarrow> 'v \<Rightarrow> (string \<times> 'v) list" where
  "mapSet [] k v = [(k, v)]"
| "mapSet ((k', v') # m) k v = (if k' = k then (k, v) # m else (k', v') # mapSet m k v)"

definition mapDelete :: "(string \<times> 'v) list \<Rightarrow> string \<Rightarrow> (string \<times> 'v) list" where
  "mapDelete m k = filter (\<lambda>e. fst e \<noteq> k) m"

text \<open>The first loop of \<open>processOverlaps\<close>, over the sorted overlaps.\<close>

fun visitLoop ::
  "TriggerState \<Rightarrow> overlap list \<Rightarrow> string list \<Rightarrow> event list
     \<Rightarrow> TriggerState \<times> string list \<times> event list" where
  "visitLoop st [] currentKeys evs = (st, currentKeys, evs)"
| "visitLoop st (ov # rest) currentKeys evs =
     (let key = makeKey (trigger ov) (other ov);
          currentKeys' = key # currentKeys
      in if mapHas (overlaps st) key
         then visitLoop st rest currentKeys' (evs @ map (\<lambda>cb. Stay cb ov) (stayCallbacks st))
         else visitLoop (st\<lparr>overlaps := mapSet (overlaps st) key ov\<rparr>) rest currentKeys'
                (evs @ map (\<lambda>cb. Enter cb ov) (enterCallbacks st)))"

text \<open>
  The loops that fire the exit callbacks, over a sorted list of keys of the map.  The
  keys are read from the map itself, so the lookup succeeds; a key without an entry
  is passed over.
\<close>

fun exitLoop ::
  "TriggerState \<Rightarrow> string list \<Rightarrow> (string \<Rightarrow> bool) \<Rightarrow> event list \<Rightarrow> TriggerState \<times> event list" where
  "exitLoop st [] keep evs = (st, evs)"
| "exitLoop st (key # rest) keep evs =
     (if \<not> keep key
      then (case map_of (overlaps st) key of
              Some ov \<Rightarrow>
                exitLoop (st\<lparr>overlaps := mapDelete (overlaps st) key\<rparr>) rest keep
                  (evs @ map (\<lambda>cb. Exit cb ov) (exitCallbacks st))
            | None \<Rightarrow> exitLoop st rest keep evs)
      else exitLoop st rest keep evs)"

definition sortedOverlaps :: "overlap list \<Rightarrow> overlap list" where
  "sortedOverlaps currentOverlaps = sort_key pairId currentOverlaps"

definition processOverlaps :: "TriggerState \<Rightarrow> overlap list \<Rightarrow> TriggerState \<times> event list" where
  "processOverlaps st currentOverlaps =
     (case visitLoop st (sortedOverlaps currentOverlaps) [] [] of
        (st1, currentKeys, evs) \<Rightarrow>
          exitLoop st1 (sort (map fst (overlaps st1))) (\<lambda>k. k \<in> set currentKeys) evs)"

definition removeBody :: "TriggerState \<Rightarrow> body \<Rightarrow> TriggerState \<times> event list" where
  "removeBody st b =
     (let keysToRemove =
            map fst (filter (\<lambda>e. ident (trigger (snd e)) = ident b \<or> ident (other (snd e)) = ident b)
                       (overlaps st))
      in exitLoop st (sort keysToRemove) (\<lambda>k. False) [])"

text \<open>The events of the enter and stay callbacks, and those of the exit callbacks.\<close>

fun isExit :: "event \<Rightarrow> bool" where
  "isExit (Exit cb ov) = True"
| "isExit e = False"

fun evOverlap :: "event \<Rightarrow> overlap" where
  "evOverlap (Enter cb ov) = ov"
| "evOverlap (Stay cb ov) = ov"
| "evOverlap (Exit cb ov) = ov"

text \<open>
  The invariant of the \<open>overlaps\<close> map that every operation of the class keeps: an
  entry is stored under the key made of its own labels.
\<close>

definition entryKeyed :: "(string \<times> overlap) list \<Rightarrow> bool" where
  "entryKeyed m = list_all (\<lambda>e. fst e = keyOf (snd e)) m"

definition keyed :: "TriggerState \<Rightarrow> bool" where
  "keyed st = entryKeyed (overlaps st)"


section \<open>Prediction manager (prediction/prediction-manager.ts)\<close>

text \<open>
  Modelled from the spec: the class \<open>PredictionManager\<close>
  (\<open>src/prediction/prediction-manager.ts\<close>), which is not among the sources; only
  its unit tests (\<open>tests/test-prediction-manager.ts\<close>) are.  The state, the frame
  advance, \<open>receive_server_tick\<close> and \<open>execute_rollback\<close> follow section 4.5 of the
  specification, the input history and the snapshot ring sections 4.3 and 4.4.  The
  world is the opaque collaborator of section 6: a state of type \<open>'w\<close> with a
  deterministic \<open>tick\<close>, whose snapshot is the state itself.  Callbacks, world ticks
  and log lines are recorded, in order, in a trace.  No \<open>inputs_callback\<close> is set.
\<close>

type_synonym gamedata = "(string \<times> int) list"

datatype lifecycle = Join | Leave | ResyncRequest

datatype payload = GameInput gamedata | LifecycleEvent lifecycle

record input =
  in_seq :: nat
  in_client :: string
  in_data :: payload

datatype pm_event =
    OnLifecycle input
  | OnUndoLifecycle input
  | OnRollback int int
  | WorldTick int "(string \<times> gamedata) list"
  | LogWarn int

record 'w PredictionManager =
  max_prediction_frames :: int
  input_delay_frames :: int
  capacity :: int
  local_peer :: string
  local_frame :: int
  confirmed_frame :: int
  enabled :: bool
  rollback_count :: int
  frames_resimulated :: int
  max_rollback_depth :: int
  ring :: "int \<rightharpoonup> int \<times> 'w"
  history :: "int \<Rightarrow> string \<rightharpoonup> gamedata \<times> bool"
  last_confirmed :: "string \<rightharpoonup> gamedata"
  lifecycle_queue :: "int \<Rightarrow> input list"
  peers :: "string list"
  world :: 'w
  trace :: "pm_event list"

text \<open>
  Modelled from the spec: the snapshot ring of section 4.4, a fixed-capacity mapping
  keyed by the frame modulo the capacity; a slot remembers the frame it holds.
\<close>

definition ring_save :: "'w PredictionManager \<Rightarrow> int \<Rightarrow> 'w \<Rightarrow> 'w PredictionManager" where
  "ring_save s f snap = s\<lparr>ring := (ring s)(f mod capacity s \<mapsto> (f, snap))\<rparr>"

definition ring_load :: "'w PredictionManager \<Rightarrow> int \<Rightarrow> 'w option" where
  "ring_load s f =
     (case ring s (f mod capacity s) of
        None \<Rightarrow> None
      | Some (f', snap) \<Rightarrow> if f' = f then Some snap else None)"

fun is_lifecycle :: "input \<Rightarrow> bool" where
  "is_lifecycle i = (case in_data i of LifecycleEvent k \<Rightarrow> True | GameInput d \<Rightarrow> False)"

text \<open>
  Modelled from the spec: storing an authoritative input (section 4.3): a game input
  overwrites the entry of its peer and is remembered as the peer's most recent confirmed
  input; a lifecycle event joins the queue of its frame, ordered by producer sequence.
\<close>

definition store_confirmed :: "int \<Rightarrow> input \<Rightarrow> 'w PredictionManager \<Rightarrow> 'w PredictionManager" where
  "store_confirmed f i s =
     (case in_data i of
        GameInput d \<Rightarrow>
          s\<lparr>history := (history s)(f := (history s f)(in_client i \<mapsto> (d, True))),
            last_confirmed := (last_confirmed s)(in_client i \<mapsto> d)\<rparr>
      | LifecycleEvent k \<Rightarrow>
          s\<lparr>lifecycle_queue := (lifecycle_queue s)(f := insort_key in_seq i (lifecycle_queue s f))\<rparr>)"

text \<open>
  Modelled from the spec: a game input is mispredicted when the history has no entry
  for its peer at the frame, a different payload, or a predicted entry.
\<close>

definition mispredicted :: "'w PredictionManager \<Rightarrow> int \<Rightarrow> input \<Rightarrow> bool" where
  "mispredicted s f i =
     (case in_data i of
        LifecycleEvent k \<Rightarrow> False
      | GameInput d \<Rightarrow>
          (case history s f (in_client i) of
             None \<Rightarrow> True
           | Some (d', c) \<Rightarrow> d' \<noteq> d \<or> \<not> c))"

text \<open>
  Modelled from the spec: the inputs of a frame are assembled over the sorted active
  peers, a confirmed record where there is one and the repeat-last prediction (the most
  recent confirmed input, or the empty payload) otherwise; predictions are entered in
  the history as unconfirmed.
\<close>

definition input_for :: "'w PredictionManager \<Rightarrow> int \<Rightarrow> string \<Rightarrow> gamedata" where
  "input_for s f p =
     (case history s f p of
        Some (d, True) \<Rightarrow> d
      | _ \<Rightarrow> (case last_confirmed s p of Some d \<Rightarrow> d | None \<Rightarrow> []))"

definition assemble_inputs :: "'w PredictionManager \<Rightarrow> int \<Rightarrow> (string \<times> gamedata) list" where
  "assemble_inputs s f = map (\<lambda>p. (p, input_for s f p)) (sort (peers s))"

definition note_predictions :: "int \<Rightarrow> 'w PredictionManager \<Rightarrow> 'w PredictionManager" where
  "note_predictions f s =
     s\<lparr>history := (history s)(f := (\<lambda>p.
          case history s f p of
            Some (d, True) \<Rightarrow> Some (d, True)
          | _ \<Rightarrow> if p \<in> set (peers s) then Some (input_for s f p, False) else history s f p))\<rparr>"

text \<open>
  Modelled from the spec: simulating one frame, shared by the advance and by the
  resimulation: lifecycle events of the frame are emitted first, then the world ticks.
\<close>

definition simulate_frame ::
  "(int \<Rightarrow> (string \<times> gamedata) list \<Rightarrow> 'w \<Rightarrow> 'w) \<Rightarrow> int \<Rightarrow> 'w PredictionManager \<Rightarrow> 'w PredictionManager" where
  "simulate_frame wtick f s =
     (let inputs = assemble_inputs s f;
          s1 = note_predictions f s
      in s1\<lparr>world := wtick f inputs (world s1),
            trace := trace s1 @ map OnLifecycle (lifecycle_queue s1 f) @ [WorldTick f inputs]\<rparr>)"

definition queue_local_input :: "gamedata \<Rightarrow> 'w PredictionManager \<Rightarrow> 'w PredictionManager" where
  "queue_local_input d s =
     store_confirmed (local_frame s + input_delay_frames s)
       \<lparr>in_seq = 0, in_client = local_peer s, in_data = GameInput d\<rparr> s"

definition advance_frame ::
  "(int \<Rightarrow> (string \<times> gamedata) list \<Rightarrow> 'w \<Rightarrow> 'w) \<Rightarrow> 'w PredictionManager \<Rightarrow> 'w PredictionManager" where
  "advance_frame wtick s =
     (if \<not> enabled s \<or> local_frame s - confirmed_frame s \<ge> max_prediction_frames s then s
      else let s1 = ring_save s (local_frame s) (world s);
               s2 = s1\<lparr>local_frame := local_frame s1 + 1\<rparr>
           in simulate_frame wtick (local_frame s2) s2)"

text \<open>The resimulation of step 4: each frame is simulated and its snapshot saved again.\<close>

definition resimulate ::
  "(int \<Rightarrow> (string \<times> gamedata) list \<Rightarrow> 'w \<Rightarrow> 'w) \<Rightarrow> int list \<Rightarrow> 'w PredictionManager \<Rightarrow> 'w PredictionManager" where
  "resimulate wtick frames s =
     foldl (\<lambda>s f. let s1 = simulate_frame wtick f s in ring_save s1 f (world s1)) s frames"

text \<open>
  Modelled from the spec: \<open>execute_rollback\<close>, steps 1 to 4 and 6 of section 4.5.  The
  statistics of step 5 are those that the repository's tests assert
  (\<open>tests/test-prediction-manager.ts\<close>, ``tracks framesResimulated'' and ``tracks
  maxRollbackDepth''): after three advances a rollback to frame 1 leaves
  \<open>framesResimulated = 2\<close>, and after five advances \<open>maxRollbackDepth = 4\<close>, that is
  \<open>localFrame - toFrame\<close>, while the frames \<open>toFrame \<dots> localFrame\<close> are all ticked
  again (``resimulation ticks correct frames with corrected inputs'').
\<close>

definition execute_rollback ::
  "(int \<Rightarrow> (string \<times> gamedata) list \<Rightarrow> 'w \<Rightarrow> 'w) \<Rightarrow> int \<Rightarrow> 'w PredictionManager \<Rightarrow> 'w PredictionManager" where
  "execute_rollback wtick f s =
     (case ring_load s (f - 1) of
        None \<Rightarrow> s\<lparr>trace := trace s @ [LogWarn f]\<rparr>
      | Some snap \<Rightarrow>
          (let from = local_frame s;
               undo = concat (map (\<lambda>fr. map OnUndoLifecycle (lifecycle_queue s fr)) (rev [f .. from]));
               s1 = s\<lparr>trace := trace s @ undo, world := snap\<rparr>;
               s2 = resimulate wtick [f .. from] s1;
               s3 = s2\<lparr>rollback_count := rollback_count s2 + 1,
                       frames_resimulated := frames_resimulated s2 + (from - f),
                       max_rollback_depth := max (max_rollback_depth s2) (from - f)\<rparr>
           in s3\<lparr>trace := trace s3 @ [OnRollback from f]\<rparr>))"

text \<open>
  Modelled from the spec: \<open>receive_server_tick\<close> (section 4.5).  As in the tests, a
  frame at or below the confirmed frame is treated like any other past frame.
\<close>

definition receive_server_tick ::
  "(int \<Rightarrow> (string \<times> gamedata) list \<Rightarrow> 'w \<Rightarrow> 'w) \<Rightarrow> int \<Rightarrow> input list \<Rightarrow> 'w PredictionManager
     \<Rightarrow> bool \<times> 'w PredictionManager" where
  "receive_server_tick wtick f inputs s =
     (if f > local_frame s
      then (let s1 = s\<lparr>trace := trace s @ map OnLifecycle (filter is_lifecycle inputs)\<rparr>
            in (False, foldl (\<lambda>s i. store_confirmed f i s) s1 inputs))
      else (let misprediction = list_ex (mispredicted s f) inputs;
                forced = list_ex is_lifecycle inputs;
                s1 = foldl (\<lambda>s i. store_confirmed f i s) s inputs;
                s2 = s1\<lparr>confirmed_frame := max (confirmed_frame s1) f\<rparr>
            in if misprediction \<or> forced then (True, execute_rollback wtick f s2)
               else (False, s2)))"

text \<open>
  The set-up of the unit tests: a manager with the default configuration
  (\<open>max_prediction_frames = 10\<close>, a ring of eleven slots), one local peer, enabled, on
  a world that records the ticks applied to it.
\<close>

type_synonym tickWorld = "(int \<times> (string \<times> gamedata) list) list"

definition recTick :: "int \<Rightarrow> (string \<times> gamedata) list \<Rightarrow> tickWorld \<Rightarrow> tickWorld" where
  "recTick f inputs w = w @ [(f, inputs)]"

definition createPM :: "int \<Rightarrow> string list \<Rightarrow> tickWorld PredictionManager" where
  "createPM delay ps =
     \<lparr> max_prediction_frames = 10, input_delay_frames = delay, capacity = 11,
       local_peer = ''1'', local_frame = 0, confirmed_frame = 0, enabled = True,
       rollback_count = 0, frames_resimulated = 0, max_rollback_depth = 0,
       ring = Map.empty, history = (\<lambda>f. Map.empty), last_confirmed = Map.empty,
       lifecycle_queue = (\<lambda>f. []), peers = ps, world = [], trace = [] \<rparr>"

definition ticksOf :: "pm_event list \<Rightarrow> int list" where
  "ticksOf evs = concat (map (\<lambda>e. case e of WorldTick f i \<Rightarrow> [f] | _ \<Rightarrow> []) evs)"


section \<open>The sender selection as the specification words it\<close>

text \<open>
  The selection of section 4.2 of the specification, written from its words and kept
  apart from the code above, to be compared with it.  The weight of a peer is its
  reliability, clamped to \<open>[0, 100]\<close> and 50 when absent, plus one, scaled by
  \<open>2 ^ 16\<close>.  The generator is xorshift32, given here on the unsigned 32-bit value
  of its state with the shifts written as multiplication and division.  A draw
  reduces the generator state modulo \<open>2 ^ 16\<close>, multiplies it by the total weight in
  a 64-bit intermediate (the product of a 16-bit fraction and a 16.16 fixed-point
  weight, of which the part above the fraction is kept) and takes the first peer whose
  cumulative weight exceeds the result.  The peer is removed and the generator
  advanced before the next draw.
\<close>

definition spec_weight :: "(string \<rightharpoonup> int) \<Rightarrow> string \<Rightarrow> int" where
  "spec_weight reliability peer =
     (max 0 (min 100 (case reliability peer of None \<Rightarrow> 50 | Some r \<Rightarrow> r)) + 1) * 2 ^ 16"

definition spec_xorshift32 :: "int \<Rightarrow> int" where
  "spec_xorshift32 x =
     (let a = x XOR ((x * 2 ^ 13) mod 2 ^ 32);
          b = a XOR (a div 2 ^ 17)
      in b XOR ((b * 2 ^ 5) mod 2 ^ 32))"

fun spec_bucket :: "int list \<Rightarrow> int \<Rightarrow> int \<Rightarrow> nat" where
  "spec_bucket [] t c = 0"
| "spec_bucket (w # ws) t c = (if t < c + w then 0 else Suc (spec_bucket ws t (c + w)))"

definition spec_draw :: "int list \<Rightarrow> int \<Rightarrow> nat" where
  "spec_draw weights state =
     (let u = state mod 2 ^ 16;
          total = sum_list weights;
          t = ((u * total) mod 2 ^ 64) div 2 ^ 16
      in spec_bucket weights t 0)"

fun spec_select :: "nat \<Rightarrow> int \<Rightarrow> string list \<Rightarrow> (string \<rightharpoonup> int) \<Rightarrow> string list" where
  "spec_select 0 state ps reliability = []"
| "spec_select (Suc k) state ps reliability =
     (if ps = [] then []
      else (let i = spec_draw (map (spec_weight reliability) ps) state
            in ps ! i # spec_select k (spec_xorshift32 state) (splice1 ps i) reliability))"

definition spec_senders :: "string list \<Rightarrow> int \<Rightarrow> int \<Rightarrow> (string \<rightharpoonup> int) \<Rightarrow> int \<Rightarrow> string list" where
  "spec_senders ps frm p reliability sendersPerPartition =
     (let sortedPeers = sort ps;
          seed = xxhash32Combine (xxhash32Combine 0x12345678 (word_of_int frm)) (word_of_int p)
      in spec_select (nat (min sendersPerPartition (int (length sortedPeers)))) (uint seed)
           sortedPeers reliability)"

text \<open>
  The peer ids on which the property read of the code and the lookup of the
  specification agree: an id with a reliability of its own, or one that
  \<open>Object.prototype\<close> does not define.
\<close>

definition plainId :: "(string \<rightharpoonup> int) \<Rightarrow> string \<Rightarrow> bool" where
  "plainId reliability c = (reliability c \<noteq> None \<or> c \<notin> set objectPrototypeKeys)"

text \<open>The peers \<open>a\<close>, \<open>aa\<close>, \<open>aaa\<close>, \<dots>, used as a large peer list.\<close>

definition manyPeers :: "nat \<Rightarrow> string list" where
  "manyPeers n = map (\<lambda>i. replicate (Suc i) CHR ''a'') [0 ..< n]"

text \<open>The reliability object that gives each of the listed peers the score 100.\<close>

definition allReliable :: "string list \<Rightarrow> (string \<rightharpoonup> int)" where
  "allReliable cs = map_of (map (\<lambda>c. (c, 100)) cs)"

text \<open>The equations of the loops are unfolded by hand, never by the simplifier.\<close>

declare stripes.simps [simp del] words4.simps [simp del] tailBytes.simps [simp del]
  scanWeights.simps [simp del] pickLoop.simps [simp del]

section \<open>Properties of the hash\<close>

lemma add32_eq: "add32 a b = a + b"
  by (simp add: add32_def)

lemma and16: "(a::u32) AND 0xFFFF = take_bit 16 a"
proof -
  have "(0xFFFF::u32) = mask 16" by (simp add: mask_eq_exp_minus_1)
  then show ?thesis by (simp only: take_bit_eq_mask)
qed

lemma two32: "(4294967296::u32) = 0"
  by simp

lemma split16: "(a::u32) = (a AND 0xFFFF) + drop_bit 16 a * 2 ^ 16"
  using bits_ident [of 16 a] by (simp add: and16 push_bit_eq_mult add.commute)

lemma mul32_eq: "mul32 a b = a * b"
proof -
  define al ah bl bh where "al = a AND 0xFFFF" and "ah = drop_bit 16 a"
    and "bl = b AND 0xFFFF" and "bh = drop_bit 16 b"
  have a: "a = al + ah * 2 ^ 16" and b: "b = bl + bh * 2 ^ 16"
    unfolding al_def ah_def bl_def bh_def by (rule split16)+
  have "mul32 a b = al * bl + push_bit 16 (al * bh + ah * bl)"
    by (simp add: mul32_def Let_def al_def ah_def bl_def bh_def)
  also have "\<dots> = al * bl + (al * bh + ah * bl) * 2 ^ 16"
    by (simp add: push_bit_eq_mult)
  also have "\<dots> = (al + ah * 2 ^ 16) * (bl + bh * 2 ^ 16)"
  proof -
    have "(al + ah * 2 ^ 16) * (bl + bh * 2 ^ 16)
        = al * bl + (al * bh + ah * bl) * 2 ^ 16 + (ah * bh) * 4294967296"
      by (simp add: algebra_simps)
    then show ?thesis by (simp only: two32 mult_zero_right add_0_right)
  qed
  also have "\<dots> = a * b"
    using a b by simp
  finally show ?thesis .
qed

text \<open>
  C2.  The hash of the empty byte array is \<open>0x02CC5D05\<close> under seed 0 and
  \<open>0x0B2CB792\<close> under seed 1, and the two arithmetic helpers every step goes through
  are addition and multiplication modulo \<open>2 ^ 32\<close>.
\<close>

theorem xxhash32_empty:
  "xxhash32 [] 0 = 0x02CC5D05 \<and> xxhash32 [] 1 = 0x0B2CB792
   \<and> add32 a b = a + b \<and> mul32 a b = a * b
   \<and> uint (add32 a b) = (uint a + uint b) mod 2 ^ 32
   \<and> uint (mul32 a b) = (uint a * uint b) mod 2 ^ 32"
proof -
  have "xxhash32 [] 0 = 0x02CC5D05" by code_simp
  moreover have "xxhash32 [] 1 = 0x0B2CB792" by code_simp
  moreover have "uint (a + b) = (uint a + uint b) mod 2 ^ 32"
    by (simp add: uint_word_ariths)
  moreover have "uint (a * b) = (uint a * uint b) mod 2 ^ 32"
    by (simp add: uint_word_ariths)
  ultimately show ?thesis by (simp add: add32_eq mul32_eq)
qed

section \<open>Properties of the partition assignment\<close>

text \<open>
  C7.  The partition count is the ceiling of \<open>e / 30\<close> clamped between 1 and
  \<open>max 1 (2 c)\<close>, and it is 1 when there is no entity or no peer.
\<close>

theorem computePartitionCount_clamp:
  "computePartitionCount e c = max 1 (min (max 1 (2 * c)) \<lceil>real_of_int e / 30\<rceil>)
   \<and> computePartitionCount 0 c = 1 \<and> computePartitionCount e 0 = 1"
proof -
  let ?ideal = "\<lceil>real_of_int e / 30\<rceil>"
  have ceil: "?ideal \<le> 0" if "e \<le> 0"
    using that by (simp add: ceiling_le_iff divide_le_0_iff)
  have main: "computePartitionCount e c = max 1 (min (max 1 (2 * c)) ?ideal)"
  proof (cases "c \<le> 0")
    case True
    then have "max 1 (2 * c) = 1" by simp
    then have "max 1 (min (max 1 (2 * c)) ?ideal) = 1" by simp
    with True show ?thesis by (simp add: computePartitionCount_def)
  next
    case c: False
    show ?thesis
    proof (cases "e \<le> 0")
      case True
      from ceil [OF True] have "min (max 1 (2 * c)) ?ideal \<le> 0"
        by (rule min.coboundedI2)
      then have "max 1 (min (max 1 (2 * c)) ?ideal) = 1" by simp
      with True c show ?thesis by (simp add: computePartitionCount_def)
    next
      case False
      with c show ?thesis by (simp add: computePartitionCount_def Let_def mult.commute)
    qed
  qed
  have "computePartitionCount 0 c = 1" "computePartitionCount e 0 = 1"
    by (simp_all add: computePartitionCount_def)
  with main show ?thesis by simp
qed

text \<open>
  C6.  The degradation tier is \<open>NORMAL\<close> exactly when everything was received from
  trusted senders, otherwise \<open>DEGRADED\<close> exactly above three quarters, otherwise
  \<open>MINIMAL\<close> exactly above one quarter, otherwise \<open>SKIP\<close>; with the four examples of
  the specification.
\<close>

theorem computeDegradationTier_tiers:
  "(computeDegradationTier t r ts tn = NORMAL) = (r = t \<and> ts = tn)
   \<and> (computeDegradationTier t r ts tn = DEGRADED)
       = (\<not> (r = t \<and> ts = tn) \<and> real_of_int r > 0.75 * real_of_int t)
   \<and> (computeDegradationTier t r ts tn = MINIMAL)
       = (\<not> (r = t \<and> ts = tn) \<and> \<not> real_of_int r > 0.75 * real_of_int t
          \<and> real_of_int r > 0.25 * real_of_int t)
   \<and> (computeDegradationTier t r ts tn = SKIP)
       = (\<not> (r = t \<and> ts = tn) \<and> \<not> real_of_int r > 0.75 * real_of_int t
          \<and> \<not> real_of_int r > 0.25 * real_of_int t)
   \<and> computeDegradationTier 10 10 20 20 = NORMAL
   \<and> computeDegradationTier 10 8 15 20 = DEGRADED
   \<and> computeDegradationTier 10 4 ts tn = MINIMAL
   \<and> computeDegradationTier 10 2 ts tn = SKIP"
  by (simp add: computeDegradationTier_def mult.commute)

lemma sort_perm_eq:
  fixes xs ys :: "string list"
  assumes "mset xs = mset ys"
  shows "sort xs = sort ys"
  by (rule properties_for_sort) (simp_all add: assms)

lemma pick_all: "int (length cs) \<le> cnt \<Longrightarrow> weightedRandomPick cs cnt seed r = cs"
  by (simp add: weightedRandomPick_def)

text \<open>
  C1.  The assignment does not depend on the order of the peer list: for a permutation
  of the peers the result is the same, so the number of partitions and the ordered
  sender list of every partition are.
\<close>

theorem assignment_permutation:
  assumes "mset P' = mset P"
  shows "computePartitionAssignment e P' f r s = computePartitionAssignment e P f r s
         \<and> numPartitions (computePartitionAssignment e P' f r s)
           = numPartitions (computePartitionAssignment e P f r s)
         \<and> (\<forall>p. sendersOf (computePartitionAssignment e P' f r s) p
                = sendersOf (computePartitionAssignment e P f r s) p)"
proof -
  have "sort P' = sort P" using assms by (rule sort_perm_eq)
  then have "computePartitionAssignment e P' f r s = computePartitionAssignment e P f r s"
    by (simp add: computePartitionAssignment_def)
  then show ?thesis by simp
qed

theorem assignment_permutation_witness:
  "computePartitionAssignment 100 [''c'', ''a'', ''b''] 42 [''a'' \<mapsto> 100, ''b'' \<mapsto> 90, ''c'' \<mapsto> 80] 2
     = computePartitionAssignment 100 [''a'', ''b'', ''c''] 42 [''a'' \<mapsto> 100, ''b'' \<mapsto> 90, ''c'' \<mapsto> 80] 2
   \<and> mset [''c'', ''a'', ''b''] = mset [''a'', ''b'', ''c'']"
proof -
  have m: "mset [''c'', ''a'', ''b''] = mset [''a'', ''b'', ''c'']" by (simp add: add_mset_commute)
  from assignment_permutation [OF m] m show ?thesis by blast
qed

text \<open>
  C10.  With no more peers than senders per partition, every partition is sent by the
  whole peer list in ascending order, whatever the frame and the reliability scores:
  the selection loop is not entered.
\<close>

theorem few_peers_all_send:
  assumes "int (length P) \<le> s"
  shows "partitionSenders (computePartitionAssignment e P f r s)
           = map (\<lambda>p. (p, sort P)) [0 ..< nat (computePartitionCount e (int (length P)))]
         \<and> (\<forall>p. sendersOf (computePartitionAssignment e P f r s) p
                = (if int p < numPartitions (computePartitionAssignment e P f r s)
                   then Some (sort P) else None))"
proof -
  have m: "min s (int (length (sort P))) = int (length (sort P))" using assms by simp
  have ps: "partitionSenders (computePartitionAssignment e P f r s)
           = map (\<lambda>p. (p, sort P)) [0 ..< nat (computePartitionCount e (int (length P)))]"
  proof -
    have "weightedRandomPick (sort P) (min s (int (length (sort P)))) sd r = sort P" for sd
      using assms by (intro pick_all) simp
    then show ?thesis by (simp add: computePartitionAssignment_def Let_def)
  qed
  have n: "numPartitions (computePartitionAssignment e P f r s) = computePartitionCount e (int (length P))"
    by (simp add: computePartitionAssignment_def Let_def)
  have "map_of (map (\<lambda>p. (p, v)) [0 ..< k]) p = (if p < k then Some v else None)" for k p and v :: "string list"
    by (simp add: map_of_map_restrict restrict_map_def)
  then show ?thesis using ps n by (auto simp: sendersOf_def)
qed

theorem few_peers_all_send_witness:
  "partitionSenders (computePartitionAssignment 100 [''b'', ''a''] 7 [''a'' \<mapsto> 3] 2)
     = [(0, [''a'', ''b'']), (1, [''a'', ''b'']), (2, [''a'', ''b'']), (3, [''a'', ''b''])]"
proof -
  have h: "int (length [''b'', ''a'']) \<le> 2" by simp
  have c: "nat (computePartitionCount 100 (int (length [''b'', ''a'']))) = 4"
    by (simp add: computePartitionCount_def)
  have u: "[0 ..< 4] = [0, 1, 2, Suc 2]" by (simp add: upt_rec)
  have s: "sort [''b'', ''a''] = [''a'', ''b'']" by code_simp
  from few_peers_all_send [OF h, of 100 7 "[''a'' \<mapsto> 3]"] show ?thesis
    by (simp only: c u s list.map) simp
qed


section \<open>The selection loop against the specified sampling\<close>

lemma toInt32_id: "- 2147483648 \<le> x \<Longrightarrow> x < 2147483648 \<Longrightarrow> toInt32 x = x"
  by (simp add: toInt32_def signed_of_int signed_take_bit_int_eq_self)

lemma toUint32_id: "0 \<le> x \<Longrightarrow> x < 4294967296 \<Longrightarrow> toUint32 x = x"
  by (simp add: toUint32_def unsigned_of_int take_bit_int_eq_self)

lemma nextRandom_xorshift32: "uint (nextRandom w) = spec_xorshift32 (uint w)"
proof -
  have push: "uint (push_bit n v) = (uint v * 2 ^ n) mod 2 ^ 32" for n and v :: u32
    by (simp only: unsigned_push_bit_eq) (simp add: take_bit_eq_mod push_bit_eq_mult)
  have tb: "take_bit 32 (uint v) = uint v" for v :: u32
    using uint_lt2p [of v] by (intro take_bit_int_eq_self) simp_all
  have drop: "uint (drop_bit n v) = uint v div 2 ^ n" for n and v :: u32
    by (simp only: unsigned_drop_bit_eq) (simp add: drop_bit_eq_div tb)
  define a b c where "a = w XOR push_bit 13 w" and "b = a XOR drop_bit 17 a"
    and "c = b XOR push_bit 5 b"
  have n: "nextRandom w = c"
    by (simp only: nextRandom_def Let_def a_def b_def c_def)
  have ua: "uint a = uint w XOR ((uint w * 2 ^ 13) mod 2 ^ 32)"
    by (simp only: a_def unsigned_xor_eq push)
  have ub: "uint b = uint a XOR (uint a div 2 ^ 17)"
    by (simp only: b_def unsigned_xor_eq drop)
  have uc: "uint c = uint b XOR ((uint b * 2 ^ 5) mod 2 ^ 32)"
    by (simp only: c_def unsigned_xor_eq push)
  show ?thesis
    by (simp only: n uc ub ua spec_xorshift32_def Let_def)
qed

lemma xorshift32_values: "spec_xorshift32 1 = 270369 \<and> spec_xorshift32 270369 = 67634689"
  by (simp add: spec_xorshift32_def Let_def)

lemma spec_weight_bounds: "65536 \<le> spec_weight r p \<and> spec_weight r p \<le> 6619136"
  by (simp add: spec_weight_def max_def min_def split: option.split)

lemma weight_eq:
  assumes "plainId r c"
  shows "computeFixedPointWeights [c] r = [spec_weight r c]"
proof -
  have t: "toInt32 ((max 0 (min 100 v) + 1) * FP_SCALE) = (max 0 (min 100 v) + 1) * 2 ^ 16" for v
    by (rule trans [OF toInt32_id]) (simp_all add: FP_SCALE_def max_def min_def)
  show ?thesis
  proof (cases "r c")
    case None
    with assms have "c \<notin> set objectPrototypeKeys" by (simp add: plainId_def)
    with None show ?thesis
      using t [of 50]
      by (simp add: computeFixedPointWeights_def getProperty_def spec_weight_def Let_def)
  next
    case (Some v)
    then show ?thesis
      by (simp add: computeFixedPointWeights_def getProperty_def spec_weight_def Let_def t)
  qed
qed

lemma weights_eq:
  "\<forall>c \<in> set cs. plainId r c \<Longrightarrow> computeFixedPointWeights cs r = map (spec_weight r) cs"
proof (induction cs)
  case Nil
  show ?case by (simp add: computeFixedPointWeights_def)
next
  case (Cons c cs)
  have "computeFixedPointWeights (c # cs) r
        = computeFixedPointWeights [c] r @ computeFixedPointWeights cs r"
    by (simp add: computeFixedPointWeights_def)
  with Cons weight_eq [of r c] show ?case by simp
qed

lemma sum_weights_lower: "65536 * int (length cs) \<le> sum_list (map (spec_weight r) cs)"
proof (induction cs)
  case Nil
  show ?case by simp
next
  case (Cons c cs)
  with spec_weight_bounds [of r c] show ?case by simp
qed

lemma spec_weights_nonneg: "\<forall>w \<in> set (map (spec_weight r) cs). 0 \<le> w"
proof
  fix w assume "w \<in> set (map (spec_weight r) cs)"
  then obtain c where "w = spec_weight r c" by auto
  with spec_weight_bounds [of r c] show "0 \<le> w" by simp
qed

lemma foldl_toInt32:
  "\<forall>w \<in> set ws. 0 \<le> w \<Longrightarrow> 0 \<le> t \<Longrightarrow> t + sum_list ws < 2147483648
   \<Longrightarrow> foldl (\<lambda>t w. toInt32 (t + w)) t ws = t + sum_list ws"
proof (induction ws arbitrary: t)
  case Nil
  show ?case by simp
next
  case (Cons w ws)
  have nn: "0 \<le> sum_list ws" using Cons.prems(1) by (simp add: sum_list_nonneg)
  have w: "0 \<le> w" using Cons.prems(1) by simp
  have "toInt32 (t + w) = t + w"
    using Cons.prems nn w by (intro toInt32_id) simp_all
  moreover have "foldl (\<lambda>t w. toInt32 (t + w)) (t + w) ws = (t + w) + sum_list ws"
    using Cons.prems w by (intro Cons.IH) simp_all
  ultimately show ?case by simp
qed

lemma scanWeights_bucket:
  "i \<le> length ws \<Longrightarrow> \<forall>w \<in> set ws. 0 \<le> w \<Longrightarrow> 0 \<le> c \<Longrightarrow> c \<le> th
   \<Longrightarrow> th < c + sum_list (drop i ws) \<Longrightarrow> c + sum_list (drop i ws) < 2147483648
   \<Longrightarrow> scanWeights ws th c i = int i + int (spec_bucket (drop i ws) th c)"
proof (induction ws th c i rule: scanWeights.induct)
  case (1 ws th c i)
  show ?case
  proof (cases "i < length ws")
    case False
    with "1.prems" show ?thesis by simp
  next
    case True
    then have d: "drop i ws = ws ! i # drop (Suc i) ws"
      by (simp add: Cons_nth_drop_Suc)
    have wi: "0 \<le> ws ! i" using True "1.prems"(2) by simp
    have rest: "0 \<le> sum_list (drop (Suc i) ws)"
      using "1.prems"(2) by (intro sum_list_nonneg) (auto dest: in_set_dropD)
    have c': "toInt32 (c + ws ! i) = c + ws ! i"
      using "1.prems" wi rest d by (intro toInt32_id) simp_all
    show ?thesis
    proof (cases "th < c + ws ! i")
      case lt: True
      with True c' d show ?thesis
        by (subst scanWeights.simps) (simp add: Let_def)
    next
      case ge: False
      have "scanWeights ws th (c + ws ! i) (i + 1)
            = int (i + 1) + int (spec_bucket (drop (i + 1) ws) th (c + ws ! i))"
        using "1.IH" [OF True c' [symmetric]] True ge "1.prems" wi d c'
        by (simp add: add.assoc)
      with True ge c' d show ?thesis
        by (subst scanWeights.simps) (simp add: Let_def)
    qed
  qed
qed

lemma selectWeighted_draw:
  assumes ne: "cs \<noteq> []" and small: "sum_list (map (spec_weight r) cs) < 2147483648"
  shows "selectWeighted (map (spec_weight r) cs) seed
         = int (spec_draw (map (spec_weight r) cs) (uint seed))"
proof -
  let ?ws = "map (spec_weight r) cs"
  let ?total = "sum_list ?ws"
  let ?u = "uint seed mod 65536"
  let ?t = "(?u * ?total) div 65536"
  have lo: "65536 * int (length cs) \<le> ?total"
    using sum_weights_lower [of cs r] by simp
  have len: "0 < length cs" using ne by simp
  have pos: "0 < ?total" using lo len by linarith
  have u: "0 \<le> ?u" "?u < 65536" by simp_all
  have prod_nn: "0 \<le> ?u * ?total" using u pos by simp
  have "?u * ?total < 65536 * ?total" using u pos by simp
  then have t_lt: "?t < ?total" by (simp add: div_less_iff_less_mult mult.commute)
  have t_nn: "0 \<le> ?t" using prod_nn by (simp add: pos_imp_zdiv_nonneg_iff)
  have "?u * ?total < 65536 * 2147483648"
    using u small pos by (intro mult_strict_mono) simp_all
  then have prod_lt: "?u * ?total < 18446744073709551616" by simp
  have mod64: "(?u * ?total) mod 18446744073709551616 = ?u * ?total"
    using prod_nn prod_lt by simp
  have draw: "spec_draw ?ws (uint seed) = spec_bucket ?ws ?t 0"
    by (simp add: spec_draw_def Let_def mod64)
  show ?thesis
  proof (cases "length cs = 1")
    case True
    then obtain c where cs: "cs = [c]" by (cases cs) auto
    have "?t < spec_weight r c" using t_lt cs by simp
    then have "spec_bucket ?ws ?t 0 = 0" using cs by simp
    with draw True show ?thesis by (simp add: selectWeighted_def)
  next
    case False
    have fold: "foldl (\<lambda>t w. toInt32 (t + w)) 0 ?ws = ?total"
      using foldl_toInt32 [OF spec_weights_nonneg, of 0 r cs] small by simp
    have mul: "mulFP ?u ?total = ?t"
    proof -
      have "toUint32 ?u = ?u" using u by (intro toUint32_id) simp_all
      moreover have "toUint32 ?total = ?total" using pos small by (intro toUint32_id) simp_all
      moreover have "toInt32 ?t = ?t" using t_nn t_lt small by (intro toInt32_id) simp_all
      ultimately show ?thesis by (simp add: mulFP_def FP_SCALE_def)
    qed
    have scan: "scanWeights ?ws ?t 0 0 = int 0 + int (spec_bucket (drop 0 ?ws) ?t 0)"
      using t_nn t_lt small by (intro scanWeights_bucket spec_weights_nonneg) simp_all
    from False ne fold mul scan pos draw show ?thesis
      by (simp add: selectWeighted_def Let_def FP_SCALE_def)
  qed
qed

lemma spec_select_Nil: "spec_select k st [] r = []"
  by (cases k) simp_all

lemma splice1_sum:
  fixes f :: "'a \<Rightarrow> int"
  assumes "\<forall>x \<in> set xs. 0 \<le> f x"
  shows "sum_list (map f (splice1 xs i)) \<le> sum_list (map f xs)"
proof -
  have "sum_list (map f xs) = sum_list (map f (take i xs)) + sum_list (map f (drop i xs))"
    by (metis append_take_drop_id map_append sum_list_append)
  moreover have "sum_list (map f (drop (Suc i) xs)) \<le> sum_list (map f (drop i xs))"
  proof (cases "i < length xs")
    case True
    then have "drop i xs = xs ! i # drop (Suc i) xs" by (simp add: Cons_nth_drop_Suc)
    moreover have "0 \<le> f (xs ! i)" using True assms by simp
    ultimately show ?thesis by simp
  next
    case False
    then show ?thesis by simp
  qed
  ultimately show ?thesis by (simp add: splice1_def)
qed

lemma splice1_set: "set (splice1 xs i) \<subseteq> set xs"
  by (auto simp: splice1_def dest: in_set_takeD in_set_dropD)

lemma splice1_small:
  "sum_list (map (spec_weight r) av) < 2147483648
   \<Longrightarrow> sum_list (map (spec_weight r) (splice1 av i)) < 2147483648"
proof -
  have "\<forall>x \<in> set av. 0 \<le> spec_weight r x"
    using spec_weight_bounds [of r] by (auto intro: order_trans [of 0 65536])
  from splice1_sum [of av "spec_weight r" i, OF this]
  show "sum_list (map (spec_weight r) av) < 2147483648
   \<Longrightarrow> sum_list (map (spec_weight r) (splice1 av i)) < 2147483648" by linarith
qed

lemma pickLoop_select:
  "\<forall>c \<in> set av. plainId r c \<Longrightarrow> sum_list (map (spec_weight r) av) < 2147483648 \<Longrightarrow>
   pickLoop i cnt av rng res r = res @ spec_select (nat (cnt - int i)) (uint rng) av r"
proof (induction i cnt av rng res r rule: pickLoop.induct)
  case (1 i cnt av rng res r)
  show ?case
  proof (cases "int i < cnt \<and> length av > 0")
    case False
    then have "pickLoop i cnt av rng res r = res"
      by (subst pickLoop.simps) (simp only: if_False)
    with False show ?thesis by (auto simp: spec_select_Nil)
  next
    case True
    then have ne: "av \<noteq> []" by auto
    define idx where "idx = spec_draw (map (spec_weight r) av) (uint rng)"
    have sel: "nat (selectWeighted (computeFixedPointWeights av r) rng) = idx"
      using selectWeighted_draw [OF ne "1.prems"(2), of rng] "1.prems"(1)
      by (simp add: weights_eq idx_def)
    have k: "nat (cnt - int i) = Suc (nat (cnt - int (i + 1)))" using True by auto
    have plain: "\<forall>c \<in> set (splice1 av idx). plainId r c"
      using "1.prems"(1) splice1_set [of av idx] by auto
    have small: "sum_list (map (spec_weight r) (splice1 av idx)) < 2147483648"
      using "1.prems"(2) by (rule splice1_small)
    have "pickLoop (i + 1) cnt (splice1 av idx) (nextRandom rng) (res @ [av ! idx]) r
          = (res @ [av ! idx])
            @ spec_select (nat (cnt - int (i + 1))) (uint (nextRandom rng)) (splice1 av idx) r"
      using "1.IH" [OF True refl sel [symmetric]] plain small sel by simp
    then have "pickLoop i cnt av rng res r
          = (res @ [av ! idx])
            @ spec_select (nat (cnt - int (i + 1))) (spec_xorshift32 (uint rng)) (splice1 av idx) r"
      using True sel by (subst pickLoop.simps) (simp add: Let_def nextRandom_xorshift32)
    also have "\<dots> = res @ spec_select (nat (cnt - int i)) (uint rng) av r"
      using ne by (simp only: k spec_select.simps) (simp add: Let_def idx_def)
    finally show ?thesis .
  qed
qed

lemma pick_sampled:
  assumes "cnt < int (length cs)" and "\<forall>c \<in> set cs. plainId r c"
    and "sum_list (map (spec_weight r) cs) < 2147483648"
  shows "weightedRandomPick cs cnt seed r = spec_select (nat cnt) (uint seed) cs r"
proof (cases "cs = []")
  case True
  then show ?thesis by (simp add: weightedRandomPick_def spec_select_Nil)
next
  case False
  with assms(1) pickLoop_select [OF assms(2,3), of 0 cnt seed "[]"] show ?thesis
    by (simp add: weightedRandomPick_def)
qed

lemma scanWeights_range:
  "ws \<noteq> [] \<Longrightarrow> 0 \<le> scanWeights ws th c i \<and> scanWeights ws th c i < int (length ws)"
proof (induction ws th c i rule: scanWeights.induct)
  case (1 ws th c i)
  show ?case
  proof (cases "i < length ws")
    case False
    with "1.prems" show ?thesis by (subst (1 2) scanWeights.simps) simp
  next
    case True
    show ?thesis
    proof (cases "th < toInt32 (c + ws ! i)")
      case lt: True
      with True show ?thesis by (subst (1 2) scanWeights.simps) (simp add: Let_def)
    next
      case ge: False
      from "1.IH" [OF True refl ge "1.prems"] True ge show ?thesis
        by (subst (1 2) scanWeights.simps) (simp add: Let_def)
    qed
  qed
qed

lemma selectWeighted_range:
  assumes "ws \<noteq> []"
  shows "0 \<le> selectWeighted ws seed \<and> selectWeighted ws seed < int (length ws)"
proof -
  have len: "0 < int (length ws)" using assms by simp
  have "0 \<le> uint seed mod int (length ws)" "uint seed mod int (length ws) < int (length ws)"
    using len by simp_all
  with scanWeights_range [OF assms] assms show ?thesis
    by (simp add: selectWeighted_def Let_def)
qed

lemma spec_draw_range:
  fixes seed :: u32
  assumes "cs \<noteq> []" and "sum_list (map (spec_weight r) cs) < 2147483648"
  shows "spec_draw (map (spec_weight r) cs) (uint seed) < length cs"
proof -
  have "map (spec_weight r) cs \<noteq> []" using assms(1) by simp
  from selectWeighted_range [OF this, of seed] selectWeighted_draw [OF assms, of seed]
  show ?thesis by simp
qed

lemma splice1_props:
  assumes "i < length xs"
  shows "length (splice1 xs i) = length xs - 1"
    and "distinct xs \<Longrightarrow> distinct (splice1 xs i) \<and> xs ! i \<notin> set (splice1 xs i)"
proof -
  have xs: "xs = take i xs @ xs ! i # drop (Suc i) xs"
    using assms by (simp add: id_take_nth_drop [symmetric])
  show "length (splice1 xs i) = length xs - 1"
    using assms by (simp add: splice1_def)
  assume "distinct xs"
  then have "distinct (take i xs @ xs ! i # drop (Suc i) xs)" using xs by simp
  then show "distinct (splice1 xs i) \<and> xs ! i \<notin> set (splice1 xs i)"
    by (auto simp: splice1_def)
qed

lemma spec_select_props:
  fixes st :: u32
  shows "sum_list (map (spec_weight r) ps) < 2147483648 \<Longrightarrow>
   length (spec_select k (uint st) ps r) = min k (length ps)
   \<and> set (spec_select k (uint st) ps r) \<subseteq> set ps
   \<and> (distinct ps \<longrightarrow> distinct (spec_select k (uint st) ps r))"
proof (induction k arbitrary: st ps)
  case 0
  show ?case by simp
next
  case (Suc k)
  show ?case
  proof (cases "ps = []")
    case True
    then show ?thesis by simp
  next
    case False
    define i where "i = spec_draw (map (spec_weight r) ps) (uint st)"
    have i: "i < length ps" unfolding i_def using False Suc.prems by (rule spec_draw_range)
    note sp = splice1_props [OF i]
    have small: "sum_list (map (spec_weight r) (splice1 ps i)) < 2147483648"
      using Suc.prems by (rule splice1_small)
    have nx: "spec_xorshift32 (uint st) = uint (nextRandom st)"
      by (simp add: nextRandom_xorshift32)
    from Suc.IH [OF small, of "nextRandom st"]
    have IH: "length (spec_select k (spec_xorshift32 (uint st)) (splice1 ps i) r) = min k (length ps - 1)"
      "set (spec_select k (spec_xorshift32 (uint st)) (splice1 ps i) r) \<subseteq> set (splice1 ps i)"
      "distinct (splice1 ps i) \<Longrightarrow> distinct (spec_select k (spec_xorshift32 (uint st)) (splice1 ps i) r)"
      using sp(1) by (simp_all add: nx)
    have eq: "spec_select (Suc k) (uint st) ps r
              = ps ! i # spec_select k (spec_xorshift32 (uint st)) (splice1 ps i) r"
      using False by (simp add: Let_def i_def)
    have "length (spec_select (Suc k) (uint st) ps r) = min (Suc k) (length ps)"
      using eq IH(1) i by simp
    moreover have "set (spec_select (Suc k) (uint st) ps r) \<subseteq> set ps"
      using eq IH(2) splice1_set [of ps i] i by auto
    moreover have "distinct (spec_select (Suc k) (uint st) ps r)" if "distinct ps"
      using eq IH(2) IH(3) sp(2) [OF that] by auto
    ultimately show ?thesis by blast
  qed
qed

lemma map_of_tabulate:
  "map_of (map (\<lambda>p. (p, g p)) [0 ..< k]) p = (if p < k then Some (g p) else None)"
  by (simp add: map_of_map_restrict restrict_map_def)

lemma sendersOf_pick:
  "p < nat (numPartitions (computePartitionAssignment e P f r s)) \<Longrightarrow>
   sendersOf (computePartitionAssignment e P f r s) p
     = Some (weightedRandomPick (sort P) (min s (int (length P)))
               (computePartitionSeed f (int p)) r)"
  by (simp add: sendersOf_def computePartitionAssignment_def Let_def map_of_tabulate)

lemma sum_list_sort:
  fixes g :: "string \<Rightarrow> int"
  shows "sum_list (map g (sort P)) = sum_list (map g P)"
proof -
  have "mset (map g (sort P)) = mset (map g P)" by simp
  then show ?thesis by (metis sum_mset_sum_list)
qed

text \<open>
  C3 (as amended).  For every partition: with fewer senders per partition than peers,
  peer ids on which the property read of the reliability object finds nothing
  inherited, and a total weight below \<open>2 ^ 31\<close>, the sender list is the one the
  specification's fixed-point weighted sampling selects from the sorted peers: weights
  \<open>(clamp reliability + 1) * 2 ^ 16\<close> with default 50, each draw from the current
  xorshift32 state modulo \<open>2 ^ 16\<close> against the cumulative weights, the state
  advanced between draws.  It has \<open>senders_per_partition\<close> entries (none when that is
  negative), all of them peers, and no peer twice when the peer list has none twice.
  With at least as many senders per partition as peers nothing is sampled: the sender
  list is the sorted peer list.
\<close>

theorem senders_sampled:
  assumes "p < nat (numPartitions (computePartitionAssignment e P f r s))"
  shows "(s < int (length P) \<and> (\<forall>c \<in> set P. plainId r c)
            \<and> sum_list (map (spec_weight r) P) < 2 ^ 31
          \<longrightarrow> sendersOf (computePartitionAssignment e P f r s) p
                = Some (spec_senders P f (int p) r s)
              \<and> length (spec_senders P f (int p) r s) = nat s
              \<and> set (spec_senders P f (int p) r s) \<subseteq> set P
              \<and> (distinct P \<longrightarrow> distinct (spec_senders P f (int p) r s)))
         \<and> (int (length P) \<le> s
          \<longrightarrow> sendersOf (computePartitionAssignment e P f r s) p = Some (sort P))"
proof (intro conjI impI)
  assume all: "int (length P) \<le> s"
  then have "min s (int (length P)) = int (length (sort P))" by simp
  then show "sendersOf (computePartitionAssignment e P f r s) p = Some (sort P)"
    using sendersOf_pick [OF assms] by (simp add: pick_all)
next
  assume h: "s < int (length P) \<and> (\<forall>c \<in> set P. plainId r c)
             \<and> sum_list (map (spec_weight r) P) < 2 ^ 31"
  let ?seed = "computePartitionSeed f (int p)"
  have m: "min s (int (length P)) = s" using h by simp
  have small: "sum_list (map (spec_weight r) (sort P)) < 2147483648"
    using h by (simp add: sum_list_sort)
  have pick: "weightedRandomPick (sort P) s ?seed r = spec_select (nat s) (uint ?seed) (sort P) r"
    using h small by (intro pick_sampled) simp_all
  have spec: "spec_senders P f (int p) r s = spec_select (nat s) (uint ?seed) (sort P) r"
    using m by (simp add: spec_senders_def computePartitionSeed_def Let_def)
  show 1: "sendersOf (computePartitionAssignment e P f r s) p = Some (spec_senders P f (int p) r s)"
    using sendersOf_pick [OF assms] by (simp add: m pick spec)
  have ns: "min (nat s) (length P) = nat s" using h by linarith
  from spec_select_props [OF small, of "nat s" ?seed] ns
  show "length (spec_senders P f (int p) r s) = nat s"
    "set (spec_senders P f (int p) r s) \<subseteq> set P"
    by (simp_all add: spec)
  assume "distinct P"
  with spec_select_props [OF small, of "nat s" ?seed]
  show "distinct (spec_senders P f (int p) r s)"
    by (simp add: spec)
qed

lemma seed00: "computePartitionSeed 0 0 = 1370339388"
  by code_simp

lemma partitions_one: "0 < n \<Longrightarrow> computePartitionCount 1 n = 1"
proof -
  have "\<lceil>(1::real) / 30\<rceil> = 1" by (simp add: ceiling_eq_iff)
  then show "0 < n \<Longrightarrow> computePartitionCount 1 n = 1"
    by (simp add: computePartitionCount_def)
qed

lemma first_partition:
  "P \<noteq> [] \<Longrightarrow> 0 < nat (numPartitions (computePartitionAssignment 1 P f r s))"
  by (simp add: computePartitionAssignment_def Let_def partitions_one)

theorem senders_sampled_witness:
  "sendersOf (computePartitionAssignment 1 [''c'', ''a'', ''b''] 0 Map.empty 2) 0
     = Some (spec_senders [''c'', ''a'', ''b''] 0 0 Map.empty 2)
   \<and> spec_senders [''c'', ''a'', ''b''] 0 0 Map.empty 2 = [''c'', ''a'']
   \<and> length (spec_senders [''c'', ''a'', ''b''] 0 0 Map.empty 2) = 2
   \<and> distinct (spec_senders [''c'', ''a'', ''b''] 0 0 Map.empty 2)
   \<and> sendersOf (computePartitionAssignment 1 [''b'', ''a''] 0 Map.empty 2) 0 = Some [''a'', ''b'']"
proof -
  let ?P = "[''c'', ''a'', ''b'']"
  have p3: "0 < nat (numPartitions (computePartitionAssignment 1 ?P 0 Map.empty 2))"
    by (rule first_partition) simp
  have p2: "0 < nat (numPartitions (computePartitionAssignment 1 [''b'', ''a''] 0 Map.empty 2))"
    by (rule first_partition) simp
  have w: "spec_weight Map.empty c = 3342336" for c by (simp add: spec_weight_def)
  have h: "(2::int) < int (length ?P) \<and> (\<forall>c \<in> set ?P. plainId Map.empty c)
           \<and> sum_list (map (spec_weight Map.empty) ?P) < 2 ^ 31"
    by (simp add: plainId_def objectPrototypeKeys_def w)
  have d: "distinct ?P" by simp
  have srt3: "sort ?P = [''a'', ''b'', ''c'']" by code_simp
  have sel: "spec_select 2 1370339388 [''a'', ''b'', ''c''] Map.empty = [''c'', ''a'']"
    by code_simp
  have val: "spec_senders ?P 0 0 Map.empty 2 = [''c'', ''a'']"
    using seed00 by (simp add: spec_senders_def computePartitionSeed_def Let_def srt3 sel)
  have srt2: "sort [''b'', ''a''] = [''a'', ''b'']" by code_simp
  have g: "int (length [''b'', ''a'']) \<le> 2" by simp
  from senders_sampled [OF p3] h d
  have "sendersOf (computePartitionAssignment 1 ?P 0 Map.empty 2) 0
          = Some (spec_senders ?P 0 (int 0) Map.empty 2)
        \<and> length (spec_senders ?P 0 (int 0) Map.empty 2) = nat 2
        \<and> distinct (spec_senders ?P 0 (int 0) Map.empty 2)"
    by blast
  moreover from senders_sampled [OF p2] g
  have "sendersOf (computePartitionAssignment 1 [''b'', ''a''] 0 Map.empty 2) 0
          = Some (sort [''b'', ''a''])"
    by blast
  ultimately show ?thesis using val srt2 by simp
qed

lemma replicate_le: "m \<le> n \<Longrightarrow> replicate m (c::char) \<le> replicate n c"
proof (induction m arbitrary: n)
  case 0
  show ?case by simp
next
  case (Suc m)
  then obtain n' where "n = Suc n'" "m \<le> n'" by (cases n) auto
  with Suc.IH [of n'] show ?case by simp
qed

lemma manyPeers_props:
  "length (manyPeers n) = n" "sorted (manyPeers n)"
  "i < n \<Longrightarrow> manyPeers n ! i = replicate (Suc i) CHR ''a''"
  by (simp_all add: manyPeers_def sorted_iff_nth_mono replicate_le del: replicate_Suc)

lemma foldl_toInt32_wrap:
  "foldl (\<lambda>t w. toInt32 (t + w)) (toInt32 t) ws = toInt32 (t + sum_list ws)"
proof (induction ws arbitrary: t)
  case Nil
  show ?case by simp
next
  case (Cons w ws)
  have "toInt32 (toInt32 t + w) = toInt32 (t + w)"
    by (simp add: toInt32_def)
  with Cons [of "t + w"] show ?case by (simp add: add.assoc)
qed

lemma spec_bucket_replicate:
  "0 < w \<Longrightarrow> c \<le> t \<Longrightarrow> t < c + int n * w
   \<Longrightarrow> spec_bucket (replicate n w) t c = nat ((t - c) div w)"
proof (induction n arbitrary: c)
  case 0
  then show ?case by simp
next
  case (Suc n)
  show ?case
  proof (cases "t < c + w")
    case True
    with Suc.prems have "(t - c) div w = 0" by (simp add: div_pos_pos_trivial)
    with True show ?thesis by simp
  next
    case False
    have "spec_bucket (replicate n w) t (c + w) = nat ((t - (c + w)) div w)"
      using Suc.prems False by (intro Suc.IH) (simp_all add: algebra_simps)
    moreover have "(t - c) div w = (t - (c + w)) div w + 1"
    proof -
      have "t - c = (t - (c + w)) + 1 * w" by simp
      then have "(t - c) div w = ((t - (c + w)) + 1 * w) div w" by simp
      also have "\<dots> = (t - (c + w)) div w + 1"
        using Suc.prems(1) by (subst div_mult_self1) simp_all
      finally show ?thesis .
    qed
    moreover have "0 \<le> (t - (c + w)) div w"
      using False Suc.prems(1) by (simp add: pos_imp_zdiv_nonneg_iff)
    ultimately show ?thesis using False by (simp add: nat_add_distrib)
  qed
qed

lemma many_weights:
  assumes "\<forall>c \<in> set cs. r c = Some 100"
  shows "computeFixedPointWeights cs r = replicate (length cs) 6619136"
    and "map (spec_weight r) cs = replicate (length cs) 6619136"
proof -
  have t: "toInt32 (101 * FP_SCALE) = 6619136"
    by (rule trans [OF toInt32_id]) (simp_all add: FP_SCALE_def)
  have "map (\<lambda>c. f c) cs = replicate (length cs) v" if "\<forall>c \<in> set cs. f c = v"
    for f :: "string \<Rightarrow> int" and v
    using that by (simp add: map_replicate_const [symmetric])
  note const = this
  show "computeFixedPointWeights cs r = replicate (length cs) 6619136"
    unfolding computeFixedPointWeights_def
    by (rule const) (use assms t in \<open>simp add: getProperty_def Let_def\<close>)
  show "map (spec_weight r) cs = replicate (length cs) 6619136"
    by (rule const) (use assms in \<open>simp add: spec_weight_def\<close>)
qed

lemma wrapped_select:
  "selectWeighted (replicate 325 6619136) seed = uint seed mod 325"
proof -
  have "foldl (\<lambda>t w. toInt32 (t + w)) (toInt32 0) (replicate 325 6619136)
        = toInt32 (0 + sum_list (replicate 325 6619136))"
    by (rule foldl_toInt32_wrap)
  moreover have "toInt32 0 = 0" by (simp add: toInt32_def)
  moreover have "sum_list (replicate 325 (6619136::int)) = 2151219200"
    by (simp add: sum_list_replicate)
  moreover have "toInt32 2151219200 = - 2143748096" by (simp add: toInt32_def)
  ultimately have "foldl (\<lambda>t w. toInt32 (t + w)) 0 (replicate 325 6619136) = - 2143748096"
    by simp
  then show ?thesis by (simp add: selectWeighted_def Let_def)
qed

text \<open>
  The claim as stated fails in three ways.  With no more peers than senders per
  partition the code returns the sorted list, while the sampling draws \<open>b\<close> before
  \<open>a\<close>.  A peer called \<open>constructor\<close> or \<open>toString\<close> without a reliability of its own
  weighs 0 in the code, not 51.  With 325 peers of reliability 100 the total weight
  wraps around in 32 bits, and the code falls back to the seed modulo the number of
  peers.
\<close>

theorem senders_sampled_counterexample:
  "sendersOf (computePartitionAssignment 1 [''a'', ''b''] 0 Map.empty 2) 0 = Some [''a'', ''b'']
   \<and> spec_senders [''a'', ''b''] 0 0 Map.empty 2 = [''b'', ''a'']
   \<and> sendersOf (computePartitionAssignment 1 [''a'', ''constructor'', ''toString''] 0 Map.empty 2) 0
       = Some [''a'', ''toString'']
   \<and> spec_senders [''a'', ''constructor'', ''toString''] 0 0 Map.empty 2 = [''toString'', ''a'']
   \<and> sendersOf (computePartitionAssignment 1 (manyPeers 325) 0
                   (allReliable (manyPeers 325)) 1) 0
       = Some [replicate 289 CHR ''a'']
   \<and> spec_senders (manyPeers 325) 0 0 (allReliable (manyPeers 325)) 1
       = [replicate 234 CHR ''a'']
   \<and> sendersOf (computePartitionAssignment 1 [''a'', ''b''] 0 Map.empty 2) 0
       \<noteq> Some (spec_senders [''a'', ''b''] 0 0 Map.empty 2)
   \<and> sendersOf (computePartitionAssignment 1 [''a'', ''constructor'', ''toString''] 0 Map.empty 2) 0
       \<noteq> Some (spec_senders [''a'', ''constructor'', ''toString''] 0 0 Map.empty 2)
   \<and> sendersOf (computePartitionAssignment 1 (manyPeers 325) 0 (allReliable (manyPeers 325)) 1) 0
       \<noteq> Some (spec_senders (manyPeers 325) 0 0 (allReliable (manyPeers 325)) 1)"
proof -
  let ?seed = "1370339388 :: u32"
  have srt2: "sort [''a'', ''b''] = [''a'', ''b'']" by code_simp
  have c1: "sendersOf (computePartitionAssignment 1 [''a'', ''b''] 0 Map.empty 2) 0 = Some [''a'', ''b'']"
    using sendersOf_pick [OF first_partition, of "[''a'', ''b'']" 0 Map.empty 2]
    by (simp add: srt2 pick_all)
  have sel2: "spec_select 2 1370339388 [''a'', ''b''] Map.empty = [''b'', ''a'']" by code_simp
  have s1: "spec_senders [''a'', ''b''] 0 0 Map.empty 2 = [''b'', ''a'']"
    using seed00 by (simp add: spec_senders_def computePartitionSeed_def Let_def srt2 sel2)
  let ?Q = "[''a'', ''constructor'', ''toString'']"
  have srt3: "sort ?Q = ?Q" by code_simp
  have pick3: "weightedRandomPick ?Q 2 ?seed Map.empty = [''a'', ''toString'']" by code_simp
  have c2: "sendersOf (computePartitionAssignment 1 ?Q 0 Map.empty 2) 0 = Some [''a'', ''toString'']"
    using sendersOf_pick [OF first_partition, of ?Q 0 Map.empty 2]
    by (simp add: srt3 seed00 pick3)
  have sel3: "spec_select 2 1370339388 ?Q Map.empty = [''toString'', ''a'']" by code_simp
  have s2: "spec_senders ?Q 0 0 Map.empty 2 = [''toString'', ''a'']"
    using seed00 by (simp add: spec_senders_def computePartitionSeed_def Let_def srt3 sel3)
  let ?M = "manyPeers 325"
  let ?R = "allReliable ?M"
  have len: "length ?M = 325" by (rule manyPeers_props)
  have ne: "?M \<noteq> []" using len by auto
  have srtM: "sort ?M = ?M" by (rule sorted_sort_id) (rule manyPeers_props)
  have R: "\<forall>c \<in> set ?M. ?R c = Some 100"
    by (simp add: allReliable_def map_of_map_restrict)
  note ws = many_weights [OF R, unfolded len]
  have idx: "nat (selectWeighted (replicate 325 6619136) ?seed) = 288"
    by (simp add: wrapped_select)
  have loop: "pickLoop 0 1 ?M ?seed [] ?R = [?M ! 288]"
    using len idx
    by (subst pickLoop.simps, subst pickLoop.simps) (simp add: Let_def ws)
  have pickM: "weightedRandomPick ?M 1 ?seed ?R = [replicate 289 CHR ''a'']"
    using loop len manyPeers_props(3) [of 288 325]
    by (simp add: weightedRandomPick_def del: replicate_Suc replicate.simps)
  have c3: "sendersOf (computePartitionAssignment 1 ?M 0 ?R 1) 0 = Some [replicate 289 CHR ''a'']"
    using sendersOf_pick [OF first_partition [OF ne], of 0 ?R 1] len
    by (simp add: srtM seed00 pickM del: replicate_Suc replicate.simps)
  have draw: "spec_draw (replicate 325 6619136) 1370339388 = 233"
  proof -
    have "spec_bucket (replicate 325 6619136) 1548158300 0 = nat ((1548158300 - 0) div 6619136)"
      by (rule spec_bucket_replicate) simp_all
    then show ?thesis by (simp add: spec_draw_def Let_def sum_list_replicate)
  qed
  have "spec_select (Suc 0) 1370339388 ?M ?R = [?M ! 233]"
    using ne by (simp add: Let_def ws draw)
  then have selM: "spec_select (Suc 0) 1370339388 ?M ?R = [replicate 234 CHR ''a'']"
    using manyPeers_props(3) [of 233 325] by (simp del: replicate_Suc replicate.simps)
  have s3: "spec_senders ?M 0 0 ?R 1 = [replicate 234 CHR ''a'']"
    using seed00 len selM
    by (simp add: spec_senders_def computePartitionSeed_def Let_def srtM
             del: replicate_Suc replicate.simps spec_select.simps)
  have ne3: "replicate 289 CHR ''a'' \<noteq> replicate 234 CHR ''a''"
  proof
    assume "replicate 289 CHR ''a'' = replicate 234 CHR ''a''"
    then have "length (replicate 289 CHR ''a'') = length (replicate 234 CHR ''a'')"
      by (rule arg_cong)
    then show False by simp
  qed
  have n1: "sendersOf (computePartitionAssignment 1 [''a'', ''b''] 0 Map.empty 2) 0
            \<noteq> Some (spec_senders [''a'', ''b''] 0 0 Map.empty 2)"
    using c1 s1 by simp
  have n2: "sendersOf (computePartitionAssignment 1 ?Q 0 Map.empty 2) 0
            \<noteq> Some (spec_senders ?Q 0 0 Map.empty 2)"
    using c2 s2 by simp
  have n3: "sendersOf (computePartitionAssignment 1 ?M 0 ?R 1) 0
            \<noteq> Some (spec_senders ?M 0 0 ?R 1)"
    using ne3 by (simp only: c3 s3 option.inject list.inject simp_thms not_False_eq_True)
  from c1 s1 c2 s2 c3 s3 n1 n2 n3 show ?thesis by (intro conjI)
qed

section \<open>Properties of the trigger overlaps\<close>

lemma entryKeyed_mapSet: "entryKeyed m \<Longrightarrow> k = keyOf ov \<Longrightarrow> entryKeyed (mapSet m k ov)"
  by (induction m) (auto simp: entryKeyed_def)

lemma entryKeyed_mapDelete: "entryKeyed m \<Longrightarrow> entryKeyed (mapDelete m k)"
  by (simp add: entryKeyed_def mapDelete_def list_all_iff)

lemma entryKeyed_lookup: "entryKeyed m \<Longrightarrow> map_of m k = Some ov \<Longrightarrow> k = keyOf ov"
  by (auto simp: entryKeyed_def list_all_iff dest!: map_of_SomeD)

lemma visitLoop_events:
  "\<exists>new. snd (snd (visitLoop st xs keys evs)) = evs @ new
     \<and> (\<forall>e \<in> set new. \<not> isExit e \<and> evOverlap e \<in> set xs)
     \<and> (sorted (map pairId xs) \<longrightarrow> sorted (map (pairId \<circ> evOverlap) new))"
proof (induction xs arbitrary: st keys evs)
  case Nil
  show ?case by simp
next
  case (Cons ov rest)
  define key where "key = makeKey (trigger ov) (other ov)"
  define st' where "st' = (if mapHas (overlaps st) key then st else st\<lparr>overlaps := mapSet (overlaps st) key ov\<rparr>)"
  define here where "here = (if mapHas (overlaps st) key then map (\<lambda>cb. Stay cb ov) (stayCallbacks st)
                             else map (\<lambda>cb. Enter cb ov) (enterCallbacks st))"
  have step: "visitLoop st (ov # rest) keys evs = visitLoop st' rest (key # keys) (evs @ here)"
    by (simp add: Let_def key_def st'_def here_def)
  from Cons.IH [of st' "key # keys" "evs @ here"]
  obtain new where new: "snd (snd (visitLoop st' rest (key # keys) (evs @ here))) = (evs @ here) @ new"
    "\<forall>e \<in> set new. \<not> isExit e \<and> evOverlap e \<in> set rest"
    "sorted (map pairId rest) \<longrightarrow> sorted (map (pairId \<circ> evOverlap) new)"
    by blast
  have here: "\<forall>e \<in> set here. \<not> isExit e \<and> evOverlap e = ov"
    by (auto simp: here_def)
  have srt: "sorted (map (pairId \<circ> evOverlap) (here @ new))" if s: "sorted (map pairId (ov # rest))"
  proof -
    have a: "map (pairId \<circ> evOverlap) here = replicate (length here) (pairId ov)"
      using here by (auto simp: map_replicate_const [symmetric] intro!: map_cong)
    have b: "\<forall>y \<in> set (map (pairId \<circ> evOverlap) new). pairId ov \<le> y"
      using new(2) s by auto
    have "sorted (map (pairId \<circ> evOverlap) new)" using new(3) s by simp
    with a b show ?thesis by (auto simp: sorted_append sorted_replicate)
  qed
  show ?case
  proof (intro exI [of _ "here @ new"] conjI)
    show "snd (snd (visitLoop st (ov # rest) keys evs)) = evs @ here @ new"
      unfolding step using new(1) by simp
    show "\<forall>e \<in> set (here @ new). \<not> isExit e \<and> evOverlap e \<in> set (ov # rest)"
      using here new(2) by auto
    show "sorted (map pairId (ov # rest)) \<longrightarrow> sorted (map (pairId \<circ> evOverlap) (here @ new))"
      using srt by blast
  qed
qed

lemma visitLoop_keyed:
  "entryKeyed (overlaps st) \<Longrightarrow> entryKeyed (overlaps (fst (visitLoop st xs keys evs)))"
proof (induction xs arbitrary: st keys evs)
  case Nil
  then show ?case by simp
next
  case (Cons ov rest)
  then show ?case
    by (auto simp: Let_def keyOf_def intro!: Cons.IH entryKeyed_mapSet)
qed

lemma exitLoop_events:
  "entryKeyed (overlaps st) \<Longrightarrow>
   \<exists>new. snd (exitLoop st ks keep evs) = evs @ new
     \<and> (\<forall>e \<in> set new. isExit e \<and> keyOf (evOverlap e) \<in> set ks \<and> \<not> keep (keyOf (evOverlap e)))
     \<and> (sorted ks \<longrightarrow> sorted (map (keyOf \<circ> evOverlap) new))"
proof (induction ks arbitrary: st evs)
  case Nil
  show ?case by simp
next
  case (Cons key rest)
  show ?case
  proof (cases "\<not> keep key \<and> map_of (overlaps st) key \<noteq> None")
    case False
    then have step: "exitLoop st (key # rest) keep evs = exitLoop st rest keep evs"
      by (auto split: option.splits)
    from Cons.IH [OF Cons.prems, of evs] step show ?thesis
      by (auto simp: sorted_append)
  next
    case True
    then obtain ov where ov: "map_of (overlaps st) key = Some ov" by auto
    have key: "key = keyOf ov" using Cons.prems ov by (rule entryKeyed_lookup)
    define st' where "st' = st\<lparr>overlaps := mapDelete (overlaps st) key\<rparr>"
    define here where "here = map (\<lambda>cb. Exit cb ov) (exitCallbacks st)"
    have step: "exitLoop st (key # rest) keep evs = exitLoop st' rest keep (evs @ here)"
      using True ov by (simp add: st'_def here_def)
    have "entryKeyed (overlaps st')"
      using Cons.prems by (simp add: st'_def entryKeyed_mapDelete)
    from Cons.IH [OF this, of "evs @ here"]
    obtain new where new: "snd (exitLoop st' rest keep (evs @ here)) = (evs @ here) @ new"
      "\<forall>e \<in> set new. isExit e \<and> keyOf (evOverlap e) \<in> set rest \<and> \<not> keep (keyOf (evOverlap e))"
      "sorted rest \<longrightarrow> sorted (map (keyOf \<circ> evOverlap) new)"
      by blast
    have here: "\<forall>e \<in> set here. isExit e \<and> evOverlap e = ov"
      by (auto simp: here_def)
    have srt: "sorted (map (keyOf \<circ> evOverlap) (here @ new))" if s: "sorted (key # rest)"
    proof -
      have a: "map (keyOf \<circ> evOverlap) here = replicate (length here) key"
        using here key by (auto simp: map_replicate_const [symmetric] intro!: map_cong)
      have b: "\<forall>y \<in> set (map (keyOf \<circ> evOverlap) new). key \<le> y"
        using new(2) s by auto
      have "sorted (map (keyOf \<circ> evOverlap) new)" using new(3) s by simp
      with a b show ?thesis by (auto simp: sorted_append sorted_replicate)
    qed
    show ?thesis
    proof (intro exI [of _ "here @ new"] conjI)
      show "snd (exitLoop st (key # rest) keep evs) = evs @ here @ new"
        unfolding step using new(1) by simp
      show "\<forall>e \<in> set (here @ new). isExit e \<and> keyOf (evOverlap e) \<in> set (key # rest)
              \<and> \<not> keep (keyOf (evOverlap e))"
        using here new(2) key True by auto
      show "sorted (key # rest) \<longrightarrow> sorted (map (keyOf \<circ> evOverlap) (here @ new))"
        using srt by blast
    qed
  qed
qed

lemma exitLoop_keyed:
  "entryKeyed (overlaps st) \<Longrightarrow> entryKeyed (overlaps (fst (exitLoop st ks keep evs)))"
proof (induction ks arbitrary: st evs)
  case Nil
  then show ?case by simp
next
  case (Cons key rest)
  then show ?case
    by (auto simp: entryKeyed_mapDelete split: option.splits intro!: Cons.IH)
qed

lemma keyed_preserved:
  "keyed st \<Longrightarrow> keyed (fst (processOverlaps st cur)) \<and> keyed (fst (removeBody st b))"
proof -
  assume "keyed st"
  then have k0: "entryKeyed (overlaps st)" by (simp add: keyed_def)
  let ?V = "visitLoop st (sortedOverlaps cur) [] []"
  obtain st1 keys evs1 where V: "?V = (st1, keys, evs1)" by (cases ?V) auto
  have k1: "entryKeyed (overlaps st1)"
    using visitLoop_keyed [OF k0, of "sortedOverlaps cur" "[]" "[]"] V by simp
  have "keyed (fst (processOverlaps st cur))"
    using exitLoop_keyed [OF k1] V by (simp add: keyed_def processOverlaps_def)
  moreover have "keyed (fst (removeBody st b))"
    using exitLoop_keyed [OF k0] by (simp add: keyed_def removeBody_def Let_def)
  ultimately show ?thesis by simp
qed

lemma map_sort_key: "map f (sort_key f xs) = sort (map f xs)"
  by (rule properties_for_sort [symmetric]) simp_all

lemma filter_same_key:
  "distinct (map f xs) \<Longrightarrow> k \<in> set xs \<Longrightarrow> filter (\<lambda>x. f k = f x) xs = [k]"
proof (induction xs)
  case Nil
  then show ?case by simp
next
  case (Cons x xs)
  show ?case
  proof (cases "k = x")
    case True
    have "filter (\<lambda>y. f x = f y) xs = []"
      using Cons.prems(1) by (auto simp: filter_empty_conv)
    with True show ?thesis by simp
  next
    case False
    with Cons.prems(2) have kx: "k \<in> set xs" by simp
    have "f x \<notin> f ` set xs" using Cons.prems(1) by simp
    with kx have ne: "f k \<noteq> f x" by (metis imageI)
    have "distinct (map f xs)" using Cons.prems(1) by simp
    from Cons.IH [OF this kx] ne show ?thesis by simp
  qed
qed

lemma sort_key_perm:
  assumes "mset ys = mset xs" and "distinct (map f xs)"
  shows "sort_key f ys = sort_key f xs"
proof (rule properties_for_sort_key)
  show "mset (sort_key f xs) = mset ys" using assms(1) by simp
  show "sorted (map f (sort_key f xs))" by simp
  fix k assume "k \<in> set (sort_key f xs)"
  then have k: "k \<in> set xs" by simp
  have "mset (map f ys) = mset (map f xs)" using assms(1) by simp
  then have dy: "distinct (map f ys)" using assms(2) by (metis mset_eq_imp_distinct_iff)
  have ky: "k \<in> set ys" using k assms(1) by (metis mset_eq_setD)
  have ds: "distinct (map f (sort_key f xs))"
    using assms(2) by (metis distinct_sort map_sort_key)
  have "filter (\<lambda>x. f k = f x) (sort_key f xs) = [k]"
    using ds by (rule filter_same_key) (simp add: k)
  moreover have "filter (\<lambda>x. f k = f x) ys = [k]"
    using dy ky by (rule filter_same_key)
  ultimately show "filter (\<lambda>x. f k = f x) (sort_key f xs) = filter (\<lambda>x. f k = f x) ys"
    by simp
qed

text \<open>
  C9.  In \<open>processOverlaps\<close> the enter and stay callbacks are invoked in ascending
  order of the pair (trigger id, other id) parsed from the labels, whatever the order
  of the input list, and the exit callbacks in the order of the sorted keys, as they
  are in \<open>removeBody\<close>.  The sequence of id pairs visited is the same for every
  permutation of the input, and when no two overlaps of the input parse to the same
  id pair the whole outcome (callbacks and state) is.
\<close>

theorem processOverlaps_order:
  assumes "keyed st"
  shows "sorted (map (pairId \<circ> evOverlap) (filter (\<lambda>e. \<not> isExit e) (snd (processOverlaps st cur))))
       \<and> sorted (map (keyOf \<circ> evOverlap) (filter isExit (snd (processOverlaps st cur))))
       \<and> sorted (map (keyOf \<circ> evOverlap) (snd (removeBody st b)))
       \<and> (mset cur' = mset cur
            \<longrightarrow> map pairId (sortedOverlaps cur') = map pairId (sortedOverlaps cur))
       \<and> (mset cur' = mset cur \<and> distinct (map pairId cur)
            \<longrightarrow> processOverlaps st cur' = processOverlaps st cur)"
proof -
  let ?V = "visitLoop st (sortedOverlaps cur) [] []"
  obtain st1 keys evs1 where V: "?V = (st1, keys, evs1)" by (cases ?V) auto
  have k0: "entryKeyed (overlaps st)" using assms by (simp add: keyed_def)
  from visitLoop_events [of st "sortedOverlaps cur" "[]" "[]"] V
  have en: "\<forall>e \<in> set evs1. \<not> isExit e" "sorted (map (pairId \<circ> evOverlap) evs1)"
    by (auto simp: sortedOverlaps_def)
  have k1: "entryKeyed (overlaps st1)"
    using visitLoop_keyed [OF k0, of "sortedOverlaps cur" "[]" "[]"] V by simp
  from exitLoop_events [OF k1, of "sort (map fst (overlaps st1))" "\<lambda>k. k \<in> set keys" evs1]
  obtain ex where ex: "snd (exitLoop st1 (sort (map fst (overlaps st1))) (\<lambda>k. k \<in> set keys) evs1) = evs1 @ ex"
    "\<forall>e \<in> set ex. isExit e" "sorted (map (keyOf \<circ> evOverlap) ex)"
    by auto
  have evs: "snd (processOverlaps st cur) = evs1 @ ex"
    using V ex(1) by (simp add: processOverlaps_def)
  have f1: "filter (\<lambda>e. \<not> isExit e) (evs1 @ ex) = evs1"
    using en(1) ex(2) by (simp add: filter_id_conv filter_empty_conv)
  have f2: "filter isExit (evs1 @ ex) = ex"
    using en(1) ex(2) by (simp add: filter_id_conv filter_empty_conv)
  have 1: "sorted (map (pairId \<circ> evOverlap) (filter (\<lambda>e. \<not> isExit e) (snd (processOverlaps st cur))))"
    by (simp only: evs f1 en(2))
  have 2: "sorted (map (keyOf \<circ> evOverlap) (filter isExit (snd (processOverlaps st cur))))"
    by (simp only: evs f2 ex(3))
  have 3: "sorted (map (keyOf \<circ> evOverlap) (snd (removeBody st b)))"
  proof -
    define ks where "ks = sort (map fst (filter (\<lambda>e. ident (trigger (snd e)) = ident b
                                    \<or> ident (other (snd e)) = ident b) (overlaps st)))"
    from exitLoop_events [OF k0, of ks "\<lambda>k. False" "[]"]
    obtain rm where rm: "snd (exitLoop st ks (\<lambda>k. False) []) = [] @ rm"
      "sorted ks \<longrightarrow> sorted (map (keyOf \<circ> evOverlap) rm)"
      by blast
    have "sorted ks" by (simp add: ks_def)
    with rm show ?thesis by (simp add: removeBody_def Let_def ks_def)
  qed
  have 4: "map pairId (sortedOverlaps cur') = map pairId (sortedOverlaps cur)" if "mset cur' = mset cur"
  proof -
    have "mset (map pairId cur') = mset (map pairId cur)" using that by simp
    then have "sort (map pairId cur') = sort (map pairId cur)"
      by (intro properties_for_sort) simp_all
    then show ?thesis by (simp add: sortedOverlaps_def map_sort_key)
  qed
  have 5: "processOverlaps st cur' = processOverlaps st cur"
    if "mset cur' = mset cur \<and> distinct (map pairId cur)"
  proof -
    have "sort_key pairId cur' = sort_key pairId cur"
      using that by (intro sort_key_perm) simp_all
    then show ?thesis by (simp add: processOverlaps_def sortedOverlaps_def)
  qed
  from 1 2 3 4 5 show ?thesis by blast
qed

theorem processOverlaps_order_witness:
  "keyed \<lparr>overlaps = [(''7:1'', \<lparr>trigger = \<lparr>ident = 7, label = ''7''\<rparr>, other = \<lparr>ident = 1, label = ''1''\<rparr>\<rparr>)],
          enterCallbacks = [0], stayCallbacks = [0], exitCallbacks = [0]\<rparr>
   \<and> processOverlaps
         \<lparr>overlaps = [(''7:1'', \<lparr>trigger = \<lparr>ident = 7, label = ''7''\<rparr>, other = \<lparr>ident = 1, label = ''1''\<rparr>\<rparr>)],
          enterCallbacks = [0], stayCallbacks = [0], exitCallbacks = [0]\<rparr>
         [\<lparr>trigger = \<lparr>ident = 10, label = ''10''\<rparr>, other = \<lparr>ident = 2, label = ''2''\<rparr>\<rparr>,
          \<lparr>trigger = \<lparr>ident = 9, label = ''9''\<rparr>, other = \<lparr>ident = 3, label = ''3''\<rparr>\<rparr>]
     = processOverlaps
         \<lparr>overlaps = [(''7:1'', \<lparr>trigger = \<lparr>ident = 7, label = ''7''\<rparr>, other = \<lparr>ident = 1, label = ''1''\<rparr>\<rparr>)],
          enterCallbacks = [0], stayCallbacks = [0], exitCallbacks = [0]\<rparr>
         [\<lparr>trigger = \<lparr>ident = 9, label = ''9''\<rparr>, other = \<lparr>ident = 3, label = ''3''\<rparr>\<rparr>,
          \<lparr>trigger = \<lparr>ident = 10, label = ''10''\<rparr>, other = \<lparr>ident = 2, label = ''2''\<rparr>\<rparr>]"
proof -
  let ?st = "\<lparr>overlaps = [(''7:1'', \<lparr>trigger = \<lparr>ident = 7, label = ''7''\<rparr>, other = \<lparr>ident = 1, label = ''1''\<rparr>\<rparr>)],
          enterCallbacks = [0], stayCallbacks = [0], exitCallbacks = [0]\<rparr>"
  let ?a = "\<lparr>trigger = \<lparr>ident = 10, label = ''10''\<rparr>, other = \<lparr>ident = 2, label = ''2''\<rparr>\<rparr>"
  let ?b = "\<lparr>trigger = \<lparr>ident = 9, label = ''9''\<rparr>, other = \<lparr>ident = 3, label = ''3''\<rparr>\<rparr>"
  have k: "keyed ?st"
    by (simp add: keyed_def entryKeyed_def keyOf_def makeKey_def)
  have m: "mset [?a, ?b] = mset [?b, ?a]" by (simp add: add_mset_commute)
  have pa: "pairId ?a = (10, 2)" by code_simp
  have pb: "pairId ?b = (9, 3)" by code_simp
  have d: "distinct (map pairId [?b, ?a])" by (simp add: pa pb)
  from processOverlaps_order [OF k, of "[?b, ?a]" "\<lparr>ident = 7, label = ''7''\<rparr>" "[?a, ?b]"] m d k
  show ?thesis by blast
qed

end
